theory Spec2Isabelle
  imports Main
begin

section \<open>The shortest-path engine of SPV.py\<close>

text \<open>
  The model follows \<^verbatim>\<open>ShortestPathVisualizer\<close> in \<^verbatim>\<open>src/SPV.py\<close>: the graph held in
  \<^verbatim>\<open>self.nodes\<close> and \<^verbatim>\<open>self.edges\<close>, the methods \<^verbatim>\<open>dijkstra\<close>, \<^verbatim>\<open>bellman_ford\<close> and
  \<^verbatim>\<open>is_path_edge\<close>. Rendering attributes (coordinates, radius) play no part in the
  computation and are left out; so is \<^verbatim>\<open>execution_time\<close>, a wall-clock measurement.
\<close>

subsection \<open>Data\<close>

text \<open>A tentative distance is a Python number or \<^verbatim>\<open>float('inf')\<close>. The weights of the
  source are Python integers, so finite distances are unbounded integers.\<close>

datatype dist = Finite int | Infinity

fun dist_less :: "dist \<Rightarrow> dist \<Rightarrow> bool" where
  "dist_less (Finite a) (Finite b) = (a < b)"
| "dist_less (Finite a) Infinity = True"
| "dist_less Infinity d = False"

fun dist_add :: "dist \<Rightarrow> int \<Rightarrow> dist" where
  "dist_add (Finite a) w = Finite (a + w)"
| "dist_add Infinity w = Infinity"

text \<open>An edge carries the ids of its two \<^verbatim>\<open>Node\<close> objects and its weight.\<close>

type_synonym edge = "string \<times> string \<times> int"

text \<open>\<^verbatim>\<open>self.nodes\<close> is a dict keyed by node id: \<open>nodes\<close> lists its keys in insertion
  order. \<^verbatim>\<open>self.edges\<close> is a list.\<close>

record graph =
  nodes :: "string list"
  edges :: "edge list"

datatype py_error = KeyError | ValueError

type_synonym dmap = "string \<rightharpoonup> dist"
type_synonym pmap = "string \<rightharpoonup> string option"

text \<open>Subscripting a dict raises \<^verbatim>\<open>KeyError\<close> on a missing key.\<close>

definition lookup :: "('k \<rightharpoonup> 'v) \<Rightarrow> 'k \<Rightarrow> py_error + 'v" where
  "lookup m k = (case m k of None \<Rightarrow> Inl KeyError | Some v \<Rightarrow> Inr v)"

text \<open>The dict returned by an algorithm has one of two shapes: with the keys
  \<^verbatim>\<open>distance\<close>, \<^verbatim>\<open>path\<close>, \<^verbatim>\<open>visit_order\<close>, \<^verbatim>\<open>algorithm\<close>, or with the keys \<^verbatim>\<open>error\<close> and
  \<^verbatim>\<open>algorithm\<close>.\<close>

datatype result =
    PathResult dist "string list" "string list" string
  | ErrorResult string string

subsection \<open>Dijkstra\<close>

text \<open>\<^verbatim>\<open>graph = defaultdict(list)\<close>, filled from the edge list: a total function whose
  default is the empty list.\<close>

definition build_graph :: "edge list \<Rightarrow> string \<Rightarrow> (string \<times> int) list" where
  "build_graph es =
     foldl (\<lambda>gr (u, v, w). gr(u := gr u @ [(v, w)])) (\<lambda>_. []) es"

text \<open>\<^verbatim>\<open>min(unvisited, key=lambda node: distances[node])\<close>: the first element, in
  iteration order, whose key is smallest. \<open>min_key\<close> is the scan with the best element
  so far and its key.\<close>

fun min_key :: "dmap \<Rightarrow> string \<Rightarrow> dist \<Rightarrow> string list \<Rightarrow> py_error + string" where
  "min_key distances best kb [] = Inr best"
| "min_key distances best kb (x # xs) =
     (case lookup distances x of
        Inl e \<Rightarrow> Inl e
      | Inr kx \<Rightarrow>
          if dist_less kx kb then min_key distances x kx xs
          else min_key distances best kb xs)"

definition py_min :: "dmap \<Rightarrow> string list \<Rightarrow> py_error + string" where
  "py_min distances xs =
     (case xs of
        [] \<Rightarrow> Inl ValueError
      | x # rest \<Rightarrow>
          (case lookup distances x of
             Inl e \<Rightarrow> Inl e
           | Inr kx \<Rightarrow> min_key distances x kx rest))"

text \<open>The inner loop \<^verbatim>\<open>for neighbor, weight in graph[current]\<close>.\<close>

fun relax_neighbors ::
  "string \<Rightarrow> (string \<times> int) list \<Rightarrow> dmap \<times> pmap \<Rightarrow> py_error + (dmap \<times> pmap)" where
  "relax_neighbors current [] (distances, previous) = Inr (distances, previous)"
| "relax_neighbors current ((neighbor, weight) # rest) (distances, previous) =
     (case lookup distances current of
        Inl e \<Rightarrow> Inl e
      | Inr dc \<Rightarrow>
          (case lookup distances neighbor of
             Inl e \<Rightarrow> Inl e
           | Inr dn \<Rightarrow>
               if dist_less (dist_add dc weight) dn
               then relax_neighbors current rest
                      (distances(neighbor \<mapsto> dist_add dc weight),
                       previous(neighbor \<mapsto> Some current))
               else relax_neighbors current rest (distances, previous)))"

text \<open>The working state of the main loop. \<open>unvisited\<close> is the Python set, held as the
  list of its elements in iteration order; removing an element of a set leaves the
  order of the others as it was.\<close>

record dstate =
  distances :: dmap
  previous :: pmap
  unvisited :: "string list"
  visit_order :: "string list"

text \<open>One run of the body of \<^verbatim>\<open>while unvisited\<close>. The flag says whether the loop goes
  on (\<open>False\<close> after either \<^verbatim>\<open>break\<close>).\<close>

definition dijkstra_body ::
  "(string \<Rightarrow> (string \<times> int) list) \<Rightarrow> string \<Rightarrow> string \<Rightarrow> dstate \<Rightarrow> py_error + (bool \<times> dstate)" where
  "dijkstra_body gr start end_id st =
     (case py_min (distances st) (unvisited st) of
        Inl e \<Rightarrow> Inl e
      | Inr current \<Rightarrow>
          (case lookup (distances st) current of
             Inl e \<Rightarrow> Inl e
           | Inr dc \<Rightarrow>
               if dc = Infinity then Inr (False, st)
               else
                 let st1 = st\<lparr>unvisited := remove1 current (unvisited st),
                              visit_order := (if current \<noteq> start then visit_order st @ [current]
                                              else visit_order st)\<rparr>
                 in if current = end_id then Inr (False, st1)
                    else
                      (case relax_neighbors current (gr current) (distances st1, previous st1) of
                         Inl e \<Rightarrow> Inl e
                       | Inr (d, p) \<Rightarrow> Inr (True, st1\<lparr>distances := d, previous := p\<rparr>))))"

lemma min_key_mem:
  "min_key d best kb xs = Inr m \<Longrightarrow> m = best \<or> m \<in> set xs"
  by (induction xs arbitrary: best kb) (auto split: sum.splits if_splits)

lemma py_min_mem: "py_min d xs = Inr m \<Longrightarrow> m \<in> set xs"
  by (auto simp: py_min_def split: list.splits sum.splits dest: min_key_mem)

lemma dijkstra_body_continue:
  assumes "dijkstra_body gr start end_id st = Inr (True, st')"
  shows "length (unvisited st') < length (unvisited st)"
proof -
  from assms obtain current where m: "py_min (distances st) (unvisited st) = Inr current"
    and u: "unvisited st' = remove1 current (unvisited st)"
    by (auto simp: dijkstra_body_def Let_def split: sum.splits if_splits)
  from py_min_mem [OF m] have "current \<in> set (unvisited st)" .
  then have "unvisited st \<noteq> []" and "length (remove1 current (unvisited st)) = length (unvisited st) - 1"
    by (auto simp: length_remove1)
  with u show ?thesis by (cases "unvisited st") auto
qed

function dijkstra_loop ::
  "(string \<Rightarrow> (string \<times> int) list) \<Rightarrow> string \<Rightarrow> string \<Rightarrow> dstate \<Rightarrow> py_error + dstate" where
  "dijkstra_loop gr start end_id st =
     (if unvisited st = [] then Inr st
      else
        (case dijkstra_body gr start end_id st of
           Inl e \<Rightarrow> Inl e
         | Inr (continue, st') \<Rightarrow>
             if continue then dijkstra_loop gr start end_id st' else Inr st'))"
  by pat_completeness auto
termination
  by (relation "measure (\<lambda>(gr, start, end_id, st). length (unvisited st))")
     (auto dest: dijkstra_body_continue)

text \<open>The number of times the body of the main loop is entered, counted along the
  same recursion.\<close>

function dijkstra_iterations ::
  "(string \<Rightarrow> (string \<times> int) list) \<Rightarrow> string \<Rightarrow> string \<Rightarrow> dstate \<Rightarrow> nat" where
  "dijkstra_iterations gr start end_id st =
     (if unvisited st = [] then 0
      else
        (case dijkstra_body gr start end_id st of
           Inl e \<Rightarrow> 1
         | Inr (continue, st') \<Rightarrow>
             if continue then 1 + dijkstra_iterations gr start end_id st' else 1))"
  by pat_completeness auto
termination
  by (relation "measure (\<lambda>(gr, start, end_id, st). length (unvisited st))")
     (auto dest: dijkstra_body_continue)

text \<open>The walk back along \<^verbatim>\<open>previous\<close>, shared by both algorithms:
  \<^verbatim>\<open>while current is not None: path.insert(0, current); current = previous[current]\<close>.
  Nothing in the source bounds this loop, so the model is a partial function: \<open>None\<close>
  stands for a walk that never ends.\<close>

partial_function (option) reconstruct ::
  "pmap \<Rightarrow> string option \<Rightarrow> string list \<Rightarrow> (py_error + string list) option" where
  "reconstruct prev current path =
     (case current of
        None \<Rightarrow> Some (Inr path)
      | Some c \<Rightarrow>
          (case prev c of
             None \<Rightarrow> Some (Inl KeyError)
           | Some p \<Rightarrow> reconstruct prev p (c # path)))"

lemma reconstruct_None [simp, code]: "reconstruct prev None path = Some (Inr path)"
  by (subst reconstruct.simps) simp

lemma reconstruct_Some [simp, code]:
  "reconstruct prev (Some c) path =
     (case prev c of None \<Rightarrow> Some (Inl KeyError) | Some p \<Rightarrow> reconstruct prev p (c # path))"
  by (subst reconstruct.simps) simp

text \<open>\<^verbatim>\<open>dijkstra(self, start, end)\<close>. The iteration order of
  \<^verbatim>\<open>set(self.nodes.keys())\<close> depends on the hashes of the ids, which the source does
  not fix: it is the parameter \<open>order\<close>.\<close>

definition dijkstra_init :: "graph \<Rightarrow> string list \<Rightarrow> string \<Rightarrow> dstate" where
  "dijkstra_init G order start =
     \<lparr>distances = (\<lambda>node. if node \<in> set (nodes G) then Some Infinity else None)(start \<mapsto> Finite 0),
      previous = (\<lambda>node. if node \<in> set (nodes G) then Some None else None),
      unvisited = order,
      visit_order = []\<rparr>"

definition finish ::
  "string \<Rightarrow> dmap \<Rightarrow> pmap \<Rightarrow> string list \<Rightarrow> string \<Rightarrow> (py_error + result) option" where
  "finish end_id d p vo name =
     (case reconstruct p (Some end_id) [] of
        None \<Rightarrow> None
      | Some (Inl e) \<Rightarrow> Some (Inl e)
      | Some (Inr path) \<Rightarrow>
          (case lookup d end_id of
             Inl e \<Rightarrow> Some (Inl e)
           | Inr de \<Rightarrow>
               Some (Inr (PathResult de (if de \<noteq> Infinity then path else []) vo name))))"

definition dijkstra ::
  "graph \<Rightarrow> string list \<Rightarrow> string \<Rightarrow> string \<Rightarrow> (py_error + result) option" where
  "dijkstra G order start end_id =
     (case dijkstra_loop (build_graph (edges G)) start end_id (dijkstra_init G order start) of
        Inl e \<Rightarrow> Some (Inl e)
      | Inr st \<Rightarrow> finish end_id (distances st) (previous st) (visit_order st) ''Dijkstra'')"

subsection \<open>Bellman-Ford\<close>

text \<open>One pass \<^verbatim>\<open>for edge in self.edges\<close> of the relaxation loop, with the flag
  \<^verbatim>\<open>updated\<close>.\<close>

fun bf_pass ::
  "string \<Rightarrow> edge list \<Rightarrow> dmap \<times> pmap \<times> string list \<times> bool \<Rightarrow>
   py_error + (dmap \<times> pmap \<times> string list \<times> bool)" where
  "bf_pass start [] st = Inr st"
| "bf_pass start ((u, v, w) # es) (d, p, vo, updated) =
     (case lookup d u of
        Inl e \<Rightarrow> Inl e
      | Inr du \<Rightarrow>
          if du \<noteq> Infinity then
            (case lookup d v of
               Inl e \<Rightarrow> Inl e
             | Inr dv \<Rightarrow>
                 if dist_less (dist_add du w) dv
                 then bf_pass start es
                        (d(v \<mapsto> dist_add du w), p(v \<mapsto> Some u),
                         (if v \<notin> set vo \<and> v \<noteq> start then vo @ [v] else vo), True)
                 else bf_pass start es (d, p, vo, updated))
          else bf_pass start es (d, p, vo, updated))"

text \<open>\<^verbatim>\<open>for _ in range(len(self.nodes) - 1)\<close>, left early after a pass without
  update.\<close>

fun bf_passes ::
  "nat \<Rightarrow> string \<Rightarrow> edge list \<Rightarrow> dmap \<times> pmap \<times> string list \<Rightarrow>
   py_error + (dmap \<times> pmap \<times> string list)" where
  "bf_passes 0 start es st = Inr st"
| "bf_passes (Suc n) start es (d, p, vo) =
     (case bf_pass start es (d, p, vo, False) of
        Inl e \<Rightarrow> Inl e
      | Inr (d', p', vo', updated) \<Rightarrow>
          if \<not> updated then Inr (d', p', vo')
          else bf_passes n start es (d', p', vo'))"

text \<open>The scan for negative cycles: \<open>True\<close> when it reaches the \<^verbatim>\<open>return\<close> of the
  error dict.\<close>

fun bf_check :: "edge list \<Rightarrow> dmap \<Rightarrow> py_error + bool" where
  "bf_check [] d = Inr False"
| "bf_check ((u, v, w) # es) d =
     (case lookup d u of
        Inl e \<Rightarrow> Inl e
      | Inr du \<Rightarrow>
          if du \<noteq> Infinity then
            (case lookup d v of
               Inl e \<Rightarrow> Inl e
             | Inr dv \<Rightarrow>
                 if dist_less (dist_add du w) dv then Inr True else bf_check es d)
          else bf_check es d)"

definition bf_init :: "graph \<Rightarrow> string \<Rightarrow> dmap \<times> pmap \<times> string list" where
  "bf_init G start =
     ((\<lambda>node. if node \<in> set (nodes G) then Some Infinity else None)(start \<mapsto> Finite 0),
      (\<lambda>node. if node \<in> set (nodes G) then Some None else None),
      [])"

definition bellman_ford :: "graph \<Rightarrow> string \<Rightarrow> string \<Rightarrow> (py_error + result) option" where
  "bellman_ford G start end_id =
     (case bf_passes (length (nodes G) - 1) start (edges G) (bf_init G start) of
        Inl e \<Rightarrow> Some (Inl e)
      | Inr (d, p, vo) \<Rightarrow>
          (case bf_check (edges G) d of
             Inl e \<Rightarrow> Some (Inl e)
           | Inr True \<Rightarrow> Some (Inr (ErrorResult ''Negative cycle detected'' ''Bellman-Ford''))
           | Inr False \<Rightarrow> finish end_id d p vo ''Bellman-Ford''))"

subsection \<open>The path-membership query\<close>

text \<open>The loop \<^verbatim>\<open>for i in range(len(path) - 1)\<close> of \<^verbatim>\<open>is_path_edge\<close>.\<close>

fun scan_path :: "string list \<Rightarrow> string \<Rightarrow> string \<Rightarrow> bool" where
  "scan_path (a # b # rest) u v = (if a = u \<and> b = v then True else scan_path (b # rest) u v)"
| "scan_path path u v = False"

text \<open>\<^verbatim>\<open>self.result\<close> is \<^verbatim>\<open>None\<close> or the dict of the last run; the error dict has no
  key \<^verbatim>\<open>path\<close>.\<close>

fun is_path_edge :: "result option \<Rightarrow> edge \<Rightarrow> bool" where
  "is_path_edge None e = False"
| "is_path_edge (Some (ErrorResult msg name)) e = False"
| "is_path_edge (Some (PathResult d path vo name)) (u, v, w) = scan_path path u v"

subsection \<open>The graphs of the scenarios\<close>

text \<open>The graph built by \<^verbatim>\<open>__init__\<close>.\<close>

definition default_graph :: graph where
  "default_graph =
     \<lparr>nodes = [''A'', ''B'', ''C'', ''D'', ''E''],
      edges = [(''A'', ''B'', 4), (''A'', ''E'', 2), (''B'', ''C'', 3), (''B'', ''D'', 1),
               (''C'', ''D'', 2), (''D'', ''E'', 3), (''E'', ''B'', 7)]\<rparr>"

text \<open>Scenario 3: the single edge from X to Y.\<close>

definition xy_graph :: graph where
  "xy_graph = \<lparr>nodes = [''X'', ''Y''], edges = [(''X'', ''Y'', 5)]\<rparr>"

text \<open>Scenario 4: a cycle of weight -2 through Q and R.\<close>

definition pqr_graph :: graph where
  "pqr_graph =
     \<lparr>nodes = [''P'', ''Q'', ''R''],
      edges = [(''P'', ''Q'', 1), (''Q'', ''R'', - 3), (''R'', ''Q'', 1)]\<rparr>"

text \<open>Two shortest paths of weight 3 from A to D.\<close>

definition tie_graph :: graph where
  "tie_graph =
     \<lparr>nodes = [''A'', ''B'', ''C'', ''D''],
      edges = [(''A'', ''C'', 2), (''C'', ''D'', 1), (''A'', ''B'', 1), (''B'', ''D'', 2)]\<rparr>"

text \<open>Negative weights that send \<^verbatim>\<open>previous\<close> round a cycle.\<close>

definition loop_graph :: graph where
  "loop_graph =
     \<lparr>nodes = [''A'', ''B'', ''C''],
      edges = [(''A'', ''B'', - 1), (''B'', ''A'', - 1), (''B'', ''C'', 1)]\<rparr>"

text \<open>A graph is valid when the endpoints of every edge are nodes of it. The keys of
  a dict are distinct.\<close>

definition valid_graph :: "graph \<Rightarrow> bool" where
  "valid_graph G \<longleftrightarrow>
     distinct (nodes G) \<and> (\<forall>(u, v, w) \<in> set (edges G). u \<in> set (nodes G) \<and> v \<in> set (nodes G))"

text \<open>An iteration order of \<^verbatim>\<open>set(self.nodes.keys())\<close>: every key once.\<close>

definition iteration_order :: "graph \<Rightarrow> string list \<Rightarrow> bool" where
  "iteration_order G order \<longleftrightarrow> distinct order \<and> set order = set (nodes G)"

section \<open>Basic facts\<close>

lemma lookup_Some [simp]: "m k = Some v \<Longrightarrow> lookup m k = Inr v"
  by (simp add: lookup_def)

lemma lookup_None [simp]: "m k = None \<Longrightarrow> lookup m k = Inl KeyError"
  by (simp add: lookup_def)

lemma lookup_Inr_iff [simp]: "lookup m k = Inr v \<longleftrightarrow> m k = Some v"
  by (simp add: lookup_def split: option.splits)

lemma scan_path_iff:
  "scan_path path u v \<longleftrightarrow> (\<exists>i. Suc i < length path \<and> path ! i = u \<and> path ! Suc i = v)"
proof (induction path u v rule: scan_path.induct)
  case (1 a b rest u v)
  show ?case
  proof (cases "a = u \<and> b = v")
    case True
    then have "Suc 0 < length (a # b # rest) \<and> (a # b # rest) ! 0 = u \<and> (a # b # rest) ! Suc 0 = v"
      by simp
    then show ?thesis using True by (simp del: length_Cons nth_Cons_Suc nth_Cons_0) blast
  next
    case False
    have "(\<exists>i. Suc i < length (a # b # rest) \<and> (a # b # rest) ! i = u \<and> (a # b # rest) ! Suc i = v)
      \<longleftrightarrow> (\<exists>j. Suc j < length (b # rest) \<and> (b # rest) ! j = u \<and> (b # rest) ! Suc j = v)"
      (is "?L \<longleftrightarrow> ?R")
    proof
      assume ?L
      then obtain i where i: "Suc i < length (a # b # rest)" "(a # b # rest) ! i = u"
        "(a # b # rest) ! Suc i = v" by blast
      with False obtain j where "i = Suc j" by (cases i) auto
      with i show ?R by auto
    next
      assume ?R
      then obtain j where "Suc j < length (b # rest)" "(b # rest) ! j = u" "(b # rest) ! Suc j = v"
        by blast
      then have "Suc (Suc j) < length (a # b # rest) \<and> (a # b # rest) ! Suc j = u
         \<and> (a # b # rest) ! Suc (Suc j) = v" by simp
      then show ?L by blast
    qed
    moreover from False have "scan_path (a # b # rest) u v = scan_path (b # rest) u v"
      by auto
    moreover from False 1 have "scan_path (b # rest) u v = ?R"
      by blast
    ultimately show ?thesis by (simp only:)
  qed
qed auto

section \<open>The main loop of Dijkstra\<close>

lemma dijkstra_body_cases:
  assumes "dijkstra_body gr start end_id st = Inr (c, st')"
  obtains (stop) "\<not> c" "st' = st"
  | (settle) current a where
      "py_min (distances st) (unvisited st) = Inr current"
      "distances st current = Some (Finite a)"
      "unvisited st' = remove1 current (unvisited st)"
      "visit_order st' = (if current \<noteq> start then visit_order st @ [current] else visit_order st)"
      "current = end_id \<Longrightarrow> \<not> c \<and> distances st' = distances st \<and> previous st' = previous st"
      "current \<noteq> end_id \<Longrightarrow> c \<and>
         relax_neighbors current (gr current) (distances st, previous st)
           = Inr (distances st', previous st')"
proof -
  from assms obtain current dc where m: "py_min (distances st) (unvisited st) = Inr current"
    and dc: "distances st current = Some dc"
    by (auto simp: dijkstra_body_def split: sum.splits)
  show thesis
  proof (cases dc)
    case Infinity
    with assms m dc have "\<not> c" "st' = st" by (auto simp: dijkstra_body_def)
    then show thesis by (rule stop)
  next
    case (Finite a)
    show thesis
    proof (rule settle [of current a])
      show "py_min (distances st) (unvisited st) = Inr current" by (rule m)
      show "distances st current = Some (Finite a)" using dc Finite by simp
      show "unvisited st' = remove1 current (unvisited st)"
        using assms m dc Finite
        by (auto simp: dijkstra_body_def Let_def split: if_splits sum.splits)
      show "visit_order st' = (if current \<noteq> start then visit_order st @ [current] else visit_order st)"
        using assms m dc Finite
        by (auto simp: dijkstra_body_def Let_def split: if_splits sum.splits)
      show "\<not> c \<and> distances st' = distances st \<and> previous st' = previous st" if "current = end_id"
        using assms m dc Finite that
        by (auto simp: dijkstra_body_def Let_def split: if_splits sum.splits)
      show "c \<and> relax_neighbors current (gr current) (distances st, previous st)
           = Inr (distances st', previous st')" if "current \<noteq> end_id"
        using assms m dc Finite that
        by (auto simp: dijkstra_body_def Let_def split: if_splits sum.splits)
    qed
  qed
qed

lemma dijkstra_iterations_le:
  "dijkstra_iterations gr start end_id st \<le> length (unvisited st)"
proof (induction gr start end_id st rule: dijkstra_iterations.induct)
  case (1 gr start end_id st)
  show ?case
  proof (cases "unvisited st = []")
    case True
    then show ?thesis by simp
  next
    case ne: False
    then have pos: "1 \<le> length (unvisited st)" by (cases "unvisited st") auto
    show ?thesis
    proof (cases "dijkstra_body gr start end_id st")
      case (Inl e)
      with ne pos show ?thesis by simp
    next
      case (Inr r)
      obtain c st' where r: "r = (c, st')" by (cases r)
      show ?thesis
      proof (cases c)
        case True
        with Inr r have b: "dijkstra_body gr start end_id st = Inr (True, st')" by simp
        from "1.IH" [OF ne Inr r [symmetric] True]
        have "dijkstra_iterations gr start end_id st' \<le> length (unvisited st')" .
        with dijkstra_body_continue [OF b] ne b show ?thesis by simp
      next
        case False
        with Inr r ne pos show ?thesis by simp
      qed
    qed
  qed
qed

lemma iteration_order_length: "iteration_order G order \<Longrightarrow> length order \<le> length (nodes G)"
  by (metis iteration_order_def card_length distinct_card)

section \<open>The path-membership query\<close>

text \<open>Claim C7. On a result with a finite distance (\<^verbatim>\<open>Found\<close>), \<open>is_path_edge\<close> holds of
  the edge from \<open>u\<close> to \<open>v\<close> exactly when \<open>u\<close> and \<open>v\<close> are adjacent entries of the path, in
  that order. On the result with infinite distance and empty path (\<^verbatim>\<open>Unreachable\<close>) and
  on the error dict (\<^verbatim>\<open>NegativeCycle\<close>) it is false for every edge.\<close>

theorem path_contains_edge_adjacent:
  "(is_path_edge (Some (PathResult (Finite a) path vo name)) (u, v, w)
      \<longleftrightarrow> (\<exists>i. Suc i < length path \<and> path ! i = u \<and> path ! Suc i = v))
   \<and> \<not> is_path_edge (Some (PathResult Infinity [] vo name)) (u, v, w)
   \<and> \<not> is_path_edge (Some (ErrorResult msg name)) (u, v, w)"
  by (simp add: scan_path_iff)

section \<open>Rules for the main loop of Dijkstra\<close>

lemma dijkstra_loop_partial_aux:
  "dijkstra_loop gr start end_id st = Inr stf \<Longrightarrow> I st \<Longrightarrow>
   \<forall>st c st'. I st \<and> unvisited st \<noteq> [] \<and> dijkstra_body gr start end_id st = Inr (c, st')
      \<longrightarrow> I st' \<Longrightarrow>
   I stf"
proof (induction gr start end_id st rule: dijkstra_loop.induct)
  case (1 gr start end_id st)
  show ?case
  proof (cases "unvisited st = []")
    case True
    with "1.prems" show ?thesis by simp
  next
    case ne: False
    with "1.prems"(1) obtain c st' where b: "dijkstra_body gr start end_id st = Inr (c, st')"
      by (auto split: sum.splits)
    from "1.prems"(2,3) ne b have I': "I st'" by blast
    show ?thesis
    proof (cases c)
      case True
      with "1.prems"(1) ne b have "dijkstra_loop gr start end_id st' = Inr stf" by simp
      from "1.IH" [OF ne b refl True this I' "1.prems"(3)] show ?thesis .
    next
      case False
      with "1.prems"(1) ne b have "stf = st'" by simp
      with I' show ?thesis by simp
    qed
  qed
qed

lemma dijkstra_loop_partial:
  assumes "dijkstra_loop gr start end_id st = Inr stf"
    and "I st"
    and "\<And>st c st'. I st \<Longrightarrow> unvisited st \<noteq> [] \<Longrightarrow>
           dijkstra_body gr start end_id st = Inr (c, st') \<Longrightarrow> I st'"
  shows "I stf"
  by (rule dijkstra_loop_partial_aux [where I = I, OF assms(1,2)]) (blast intro: assms(3))

text \<open>How the loop ends: the unvisited set is empty, or the last run of the body
  stopped.\<close>

lemma dijkstra_loop_exit:
  "dijkstra_loop gr start end_id st = Inr stf \<Longrightarrow> I st \<Longrightarrow>
   \<forall>st c st'. I st \<and> unvisited st \<noteq> [] \<and> dijkstra_body gr start end_id st = Inr (c, st')
      \<longrightarrow> I st' \<Longrightarrow>
   (unvisited stf = [] \<and> I stf) \<or>
   (\<exists>st. I st \<and> unvisited st \<noteq> [] \<and> dijkstra_body gr start end_id st = Inr (False, stf))"
proof (induction gr start end_id st rule: dijkstra_loop.induct)
  case (1 gr start end_id st)
  show ?case
  proof (cases "unvisited st = []")
    case True
    with "1.prems" show ?thesis by simp
  next
    case ne: False
    with "1.prems"(1) obtain c st' where b: "dijkstra_body gr start end_id st = Inr (c, st')"
      by (auto split: sum.splits)
    from "1.prems"(2,3) ne b have I': "I st'" by blast
    show ?thesis
    proof (cases c)
      case True
      with "1.prems"(1) ne b have "dijkstra_loop gr start end_id st' = Inr stf" by simp
      from "1.IH" [OF ne b refl True this I' "1.prems"(3)] show ?thesis .
    next
      case False
      with "1.prems"(1) ne b have "stf = st'" by simp
      with False b have "dijkstra_body gr start end_id st = Inr (False, stf)" by simp
      with ne "1.prems"(2) have "\<exists>st. I st \<and> unvisited st \<noteq> [] \<and>
        dijkstra_body gr start end_id st = Inr (False, stf)" by blast
      then show ?thesis by (rule disjI2)
    qed
  qed
qed

text \<open>The loop raises nothing when the body raises nothing on the states it meets.\<close>

lemma dijkstra_loop_total:
  "I st \<Longrightarrow>
   \<forall>st. I st \<and> unvisited st \<noteq> [] \<longrightarrow>
      (\<exists>c st'. dijkstra_body gr start end_id st = Inr (c, st') \<and> I st') \<Longrightarrow>
   \<exists>stf. dijkstra_loop gr start end_id st = Inr stf"
proof (induction gr start end_id st rule: dijkstra_loop.induct)
  case (1 gr start end_id st)
  show ?case
  proof (cases "unvisited st = []")
    case True
    then show ?thesis by simp
  next
    case ne: False
    with "1.prems" obtain c st' where b: "dijkstra_body gr start end_id st = Inr (c, st')"
      and I': "I st'" by blast
    show ?thesis
    proof (cases c)
      case True
      from "1.IH" [OF ne b refl True I' "1.prems"(2)]
      obtain stf where "dijkstra_loop gr start end_id st' = Inr stf" by blast
      with True ne b show ?thesis by simp
    next
      case False
      with ne b show ?thesis by simp
    qed
  qed
qed

section \<open>The visit order\<close>

text \<open>The visit order of Dijkstra: the nodes removed from the unvisited set, the start
  node left out.\<close>

definition visit_inv :: "string \<Rightarrow> dstate \<Rightarrow> bool" where
  "visit_inv start st \<longleftrightarrow>
     distinct (unvisited st) \<and> distinct (visit_order st)
     \<and> set (visit_order st) \<inter> set (unvisited st) = {} \<and> start \<notin> set (visit_order st)"

lemma visit_inv_body:
  assumes "visit_inv start st" and "dijkstra_body gr start end_id st = Inr (c, st')"
  shows "visit_inv start st'"
  using assms(2)
proof (cases rule: dijkstra_body_cases)
  case stop
  with assms(1) show ?thesis by simp
next
  case (settle current a)
  from py_min_mem [OF settle(1)] have "current \<in> set (unvisited st)" .
  with assms(1) settle(3,4) show ?thesis
    by (auto simp: visit_inv_def)
qed

lemma visit_inv_dijkstra:
  assumes "distinct order"
    and "dijkstra_loop gr start end_id (dijkstra_init G order start) = Inr stf"
  shows "start \<notin> set (visit_order stf) \<and> distinct (visit_order stf)"
proof -
  have "visit_inv start (dijkstra_init G order start)"
    using assms(1) by (simp add: visit_inv_def dijkstra_init_def)
  with assms(2) have "visit_inv start stf"
    by (rule dijkstra_loop_partial) (rule visit_inv_body)
  then show ?thesis by (simp add: visit_inv_def)
qed

lemma bf_pass_Cons_cases:
  assumes "bf_pass start ((u, v, w) # es) (d, p, vo, up) = Inr r"
  obtains (skip) "bf_pass start es (d, p, vo, up) = Inr r"
      "\<not> (\<exists>a dv. d u = Some (Finite a) \<and> d v = Some dv \<and> dist_less (Finite (a + w)) dv)"
  | (relax) a dv where "d u = Some (Finite a)" "d v = Some dv"
      "dist_less (Finite (a + w)) dv"
      "bf_pass start es (d(v \<mapsto> Finite (a + w)), p(v \<mapsto> Some u),
         (if v \<notin> set vo \<and> v \<noteq> start then vo @ [v] else vo), True) = Inr r"
proof -
  from assms obtain du where du: "d u = Some du"
    by (simp split: sum.splits)
  show thesis
  proof (cases du)
    case Infinity
    with assms du have "bf_pass start es (d, p, vo, up) = Inr r" by simp
    moreover from du Infinity
    have "\<not> (\<exists>a dv. d u = Some (Finite a) \<and> d v = Some dv \<and> dist_less (Finite (a + w)) dv)"
      by simp
    ultimately show thesis by (rule skip)
  next
    case (Finite a)
    with assms du obtain dv where dv: "d v = Some dv"
      by (simp split: sum.splits)
    show thesis
    proof (cases "dist_less (Finite (a + w)) dv")
      case True
      with assms du Finite dv show thesis
        by (intro relax [of a dv]) simp_all
    next
      case False
      with assms du Finite dv have "bf_pass start es (d, p, vo, up) = Inr r" by simp
      moreover from du Finite dv False
      have "\<not> (\<exists>a dv. d u = Some (Finite a) \<and> d v = Some dv \<and> dist_less (Finite (a + w)) dv)"
        by simp
      ultimately show thesis by (rule skip)
    qed
  qed
qed

lemma bf_pass_visit:
  "bf_pass start es (d, p, vo, up) = Inr (d', p', vo', up') \<Longrightarrow>
   start \<notin> set vo \<and> distinct vo \<Longrightarrow> start \<notin> set vo' \<and> distinct vo'"
proof (induction es arbitrary: d p vo up)
  case Nil
  then show ?case by simp
next
  case (Cons e es)
  obtain u v w where e: "e = (u, v, w)" by (cases e)
  from Cons.prems(1) [unfolded e] show ?case
  proof (cases rule: bf_pass_Cons_cases)
    case skip
    from Cons.IH [OF skip(1) Cons.prems(2)] show ?thesis .
  next
    case (relax a dv)
    from Cons.prems(2)
    have "start \<notin> set (if v \<notin> set vo \<and> v \<noteq> start then vo @ [v] else vo)
       \<and> distinct (if v \<notin> set vo \<and> v \<noteq> start then vo @ [v] else vo)"
      by auto
    from Cons.IH [OF relax(4) this] show ?thesis .
  qed
qed

lemma bf_passes_visit:
  "bf_passes n start es (d, p, vo) = Inr (d', p', vo') \<Longrightarrow>
   start \<notin> set vo \<and> distinct vo \<Longrightarrow> start \<notin> set vo' \<and> distinct vo'"
proof (induction n arbitrary: d p vo)
  case 0
  then show ?case by simp
next
  case (Suc n)
  from Suc.prems(1) obtain d1 p1 vo1 up1 where
    p: "bf_pass start es (d, p, vo, False) = Inr (d1, p1, vo1, up1)"
    by (auto split: sum.splits)
  from bf_pass_visit [OF p Suc.prems(2)] have v1: "start \<notin> set vo1 \<and> distinct vo1" .
  show ?case
  proof (cases up1)
    case True
    with Suc.prems(1) p have "bf_passes n start es (d1, p1, vo1) = Inr (d', p', vo')" by simp
    from Suc.IH [OF this v1] show ?thesis .
  next
    case False
    with Suc.prems(1) p v1 show ?thesis by simp
  qed
qed

lemma finish_visit:
  "finish end_id d p vo name = Some (Inr (PathResult dd path vo' name')) \<Longrightarrow> vo' = vo"
  by (auto simp: finish_def split: option.splits sum.splits)

lemma dijkstra_Inr:
  assumes "dijkstra G order start end_id = Some (Inr r)"
  obtains stf where
    "dijkstra_loop (build_graph (edges G)) start end_id (dijkstra_init G order start) = Inr stf"
    "finish end_id (distances stf) (previous stf) (visit_order stf) ''Dijkstra'' = Some (Inr r)"
proof (cases "dijkstra_loop (build_graph (edges G)) start end_id (dijkstra_init G order start)")
  case (Inl e)
  with assms show thesis by (simp add: dijkstra_def)
next
  case (Inr stf)
  with assms that show thesis by (simp add: dijkstra_def)
qed

lemma bellman_ford_Inr:
  assumes "bellman_ford G start end_id = Some (Inr r)"
  obtains d p vo where
    "bf_passes (length (nodes G) - 1) start (edges G) (bf_init G start) = Inr (d, p, vo)"
    "bf_check (edges G) d = Inr True"
    "r = ErrorResult ''Negative cycle detected'' ''Bellman-Ford''"
  | d p vo where
    "bf_passes (length (nodes G) - 1) start (edges G) (bf_init G start) = Inr (d, p, vo)"
    "bf_check (edges G) d = Inr False"
    "finish end_id d p vo ''Bellman-Ford'' = Some (Inr r)"
proof (cases "bf_passes (length (nodes G) - 1) start (edges G) (bf_init G start)")
  case (Inl e)
  with assms show thesis by (simp add: bellman_ford_def)
next
  case (Inr t)
  obtain d p vo where t: "t = (d, p, vo)" by (cases t)
  show thesis
  proof (cases "bf_check (edges G) d")
    case (Inl e)
    with assms Inr t show thesis by (simp add: bellman_ford_def)
  next
    case c: (Inr b)
    show thesis
    proof (cases b)
      case True
      with assms Inr t c that(1) [of d p vo] show thesis by (simp add: bellman_ford_def)
    next
      case False
      with assms Inr t c that(2) [of d p vo] show thesis by (simp add: bellman_ford_def)
    qed
  qed
qed

text \<open>Claim C8. Whenever \<open>dijkstra\<close> or \<open>bellman_ford\<close> returns a result with a visit
  order, that sequence does not contain the start node and contains no node twice.\<close>

theorem visit_order_no_start_no_duplicates:
  assumes "iteration_order G order"
  shows "(dijkstra G order start end_id = Some (Inr (PathResult dd path vo name))
            \<longrightarrow> start \<notin> set vo \<and> distinct vo)
     \<and> (bellman_ford G start end_id = Some (Inr (PathResult dd path vo name))
            \<longrightarrow> start \<notin> set vo \<and> distinct vo)"
proof (rule conjI; rule impI)
  assume "dijkstra G order start end_id = Some (Inr (PathResult dd path vo name))"
  then obtain stf where
    l: "dijkstra_loop (build_graph (edges G)) start end_id (dijkstra_init G order start) = Inr stf"
    and f: "finish end_id (distances stf) (previous stf) (visit_order stf) ''Dijkstra''
              = Some (Inr (PathResult dd path vo name))"
    by (rule dijkstra_Inr)
  from assms have "distinct order" by (simp add: iteration_order_def)
  from visit_inv_dijkstra [OF this l] finish_visit [OF f]
  show "start \<notin> set vo \<and> distinct vo" by simp
next
  assume "bellman_ford G start end_id = Some (Inr (PathResult dd path vo name))"
  then show "start \<notin> set vo \<and> distinct vo"
  proof (cases rule: bellman_ford_Inr)
    case (1 d p vo0)
    then show ?thesis by simp
  next
    case (2 d p vo0)
    from 2(1) have "start \<notin> set vo0 \<and> distinct vo0"
      by (simp only: bf_init_def) (erule bf_passes_visit, simp)
    with finish_visit [OF 2(3)] show ?thesis by simp
  qed
qed

theorem visit_order_no_start_no_duplicates_witness:
  "iteration_order default_graph [''A'', ''B'', ''C'', ''D'', ''E'']
   \<and> dijkstra default_graph [''A'', ''B'', ''C'', ''D'', ''E''] ''A'' ''C''
       = Some (Inr (PathResult (Finite 7) [''A'', ''B'', ''C''] [''E'', ''B'', ''D'', ''C''] ''Dijkstra''))
   \<and> ''A'' \<notin> set [''E'', ''B'', ''D'', ''C''] \<and> distinct [''E'', ''B'', ''D'', ''C'']"
proof -
  have o: "iteration_order default_graph [''A'', ''B'', ''C'', ''D'', ''E'']"
    by (simp add: iteration_order_def default_graph_def)
  have r: "dijkstra default_graph [''A'', ''B'', ''C'', ''D'', ''E''] ''A'' ''C''
       = Some (Inr (PathResult (Finite 7) [''A'', ''B'', ''C''] [''E'', ''B'', ''D'', ''C''] ''Dijkstra''))"
    by code_simp
  from visit_order_no_start_no_duplicates [OF o, of "''A''" "''C''" "Finite 7"
      "[''A'', ''B'', ''C'']" "[''E'', ''B'', ''D'', ''C'']" "''Dijkstra''"]
  have "dijkstra default_graph [''A'', ''B'', ''C'', ''D'', ''E''] ''A'' ''C''
       = Some (Inr (PathResult (Finite 7) [''A'', ''B'', ''C''] [''E'', ''B'', ''D'', ''C''] ''Dijkstra''))
     \<longrightarrow> ''A'' \<notin> set [''E'', ''B'', ''D'', ''C''] \<and> distinct [''E'', ''B'', ''D'', ''C'']"
    by (rule conjunct1)
  from this r have "''A'' \<notin> set [''E'', ''B'', ''D'', ''C''] \<and> distinct [''E'', ''B'', ''D'', ''C'']"
    by (rule mp)
  with o r show ?thesis by (intro conjI) (rule o, rule r, simp_all only: simp_thms)
qed

text \<open>The default graph after the first run of the body, from A to C.\<close>

definition after_first :: dstate where
  "after_first =
     \<lparr>distances = (distances (dijkstra_init default_graph [''A'', ''B'', ''C'', ''D'', ''E''] ''A''))
         (''B'' \<mapsto> Finite 4, ''E'' \<mapsto> Finite 2),
      previous = (previous (dijkstra_init default_graph [''A'', ''B'', ''C'', ''D'', ''E''] ''A''))
         (''B'' \<mapsto> Some ''A'', ''E'' \<mapsto> Some ''A''),
      unvisited = [''B'', ''C'', ''D'', ''E''],
      visit_order = []\<rparr>"

lemma build_graph_default_A:
  "build_graph (edges default_graph) ''A'' = [(''B'', 4), (''E'', 2)]"
  by (simp add: build_graph_def default_graph_def)

lemma default_nodes: "nodes default_graph = [''A'', ''B'', ''C'', ''D'', ''E'']"
  by (simp add: default_graph_def)

lemma default_first_iteration: "dijkstra_body (build_graph (edges default_graph)) ''A'' ''C''
     (dijkstra_init default_graph [''A'', ''B'', ''C'', ''D'', ''E''] ''A'') = Inr (True, after_first)"
  by (simp add: dijkstra_body_def build_graph_default_A dijkstra_init_def py_min_def after_first_def Let_def default_nodes)

section \<open>Walks and relaxation\<close>

text \<open>A walk from \<open>u\<close> to \<open>v\<close>: a list of edges of the graph, each starting where the one
  before ends.\<close>

fun is_walk :: "edge list \<Rightarrow> string \<Rightarrow> edge list \<Rightarrow> string \<Rightarrow> bool" where
  "is_walk E u [] v \<longleftrightarrow> u = v"
| "is_walk E u ((a, b, w) # es) v \<longleftrightarrow> a = u \<and> (a, b, w) \<in> set E \<and> is_walk E b es v"

definition weight :: "edge list \<Rightarrow> int" where
  "weight es = sum_list (map (\<lambda>(a, b, w). w) es)"

text \<open>Relaxing the edge from \<open>u\<close> to \<open>v\<close>: the assignment both algorithms make when
  \<open>distances[u] + w < distances[v]\<close> with \<open>distances[u]\<close> finite.\<close>

definition relax_edge :: "edge \<Rightarrow> dmap \<times> pmap \<Rightarrow> dmap \<times> pmap \<Rightarrow> bool" where
  "relax_edge e s s' \<longleftrightarrow>
     (case e of (u, v, w) \<Rightarrow>
        \<exists>a dv. fst s u = Some (Finite a) \<and> fst s v = Some dv \<and> dist_less (Finite (a + w)) dv
          \<and> s' = ((fst s)(v \<mapsto> Finite (a + w)), (snd s)(v \<mapsto> Some u)))"

inductive relaxes :: "edge list \<Rightarrow> dmap \<times> pmap \<Rightarrow> dmap \<times> pmap \<Rightarrow> bool" for E where
  relaxes_refl: "relaxes E s s"
| relaxes_step: "e \<in> set E \<Longrightarrow> relax_edge e s s' \<Longrightarrow> relaxes E s' s'' \<Longrightarrow> relaxes E s s''"

text \<open>What every state of either algorithm satisfies, on a valid graph with the start
  node in it: both dicts are keyed by the nodes; a finite distance is the weight of a
  walk from the start; a predecessor link follows an edge whose relaxation the
  distances still reflect; a node without predecessor is the start or has an infinite
  distance; the distance of the start is at most 0.\<close>

definition sp_inv :: "graph \<Rightarrow> string \<Rightarrow> dmap \<times> pmap \<Rightarrow> bool" where
  "sp_inv G start s \<longleftrightarrow>
     dom (fst s) = set (nodes G) \<and> dom (snd s) = set (nodes G)
     \<and> (\<forall>v a. fst s v = Some (Finite a) \<longrightarrow> (\<exists>es. is_walk (edges G) start es v \<and> weight es = a))
     \<and> (\<forall>v u. snd s v = Some (Some u) \<longrightarrow>
           (\<exists>a b w. (u, v, w) \<in> set (edges G) \<and> fst s u = Some (Finite a)
              \<and> fst s v = Some (Finite b) \<and> a + w \<le> b))
     \<and> (\<forall>v. snd s v = Some None \<longrightarrow> v = start \<or> fst s v = Some Infinity)
     \<and> (\<exists>a. fst s start = Some (Finite a) \<and> a \<le> 0)"

lemma weight_Nil [simp]: "weight [] = 0"
  by (simp add: weight_def)

lemma weight_Cons [simp]: "weight ((a, b, w) # es) = w + weight es"
  by (simp add: weight_def)

lemma weight_append [simp]: "weight (p @ q) = weight p + weight q"
  by (simp add: weight_def)

lemma is_walk_append:
  "is_walk E u (p @ q) v \<longleftrightarrow> (\<exists>x. is_walk E u p x \<and> is_walk E x q v)"
  by (induction p arbitrary: u) auto

lemma is_walk_snoc:
  "is_walk E u (p @ [(a, b, w)]) v \<longleftrightarrow> is_walk E u p a \<and> (a, b, w) \<in> set E \<and> b = v"
  by (auto simp: is_walk_append)

lemma dist_less_Finite:
  "dist_less (Finite x) dv \<longleftrightarrow> (dv = Infinity \<or> (\<exists>b. dv = Finite b \<and> x < b))"
  by (cases dv) auto

lemma relaxes_invariant:
  assumes "relaxes E s s'" and "I s"
    and "\<And>e s s'. e \<in> set E \<Longrightarrow> I s \<Longrightarrow> relax_edge e s s' \<Longrightarrow> I s'"
  shows "I s'"
  using assms(1,2)
proof (induction rule: relaxes.induct)
  case (relaxes_refl s)
  then show ?case .
next
  case (relaxes_step e s s' s'')
  from assms(3) [OF relaxes_step(1) relaxes_step(5) relaxes_step(2)] have "I s'" .
  then show ?case by (rule relaxes_step.IH)
qed

lemma relaxes_trans: "relaxes E s s' \<Longrightarrow> relaxes E s' s'' \<Longrightarrow> relaxes E s s''"
  by (induction rule: relaxes.induct) (auto intro: relaxes.intros)

lemma relaxes_mono: "relaxes E s s' \<Longrightarrow> set E \<subseteq> set E' \<Longrightarrow> relaxes E' s s'"
  by (induction rule: relaxes.induct) (auto intro: relaxes.intros)

lemma relax_edge_dom:
  "relax_edge e s s' \<Longrightarrow> dom (fst s') = dom (fst s)"
  by (auto simp: relax_edge_def split: prod.splits if_splits)

lemma sp_inv_relax_edge:
  assumes inv: "sp_inv G start s" and e: "e \<in> set (edges G)" and r: "relax_edge e s s'"
  shows "sp_inv G start s'"
proof -
  obtain d p where s: "s = (d, p)" by (cases s)
  obtain u v w where euvw: "e = (u, v, w)" by (cases e)
  from r s euvw obtain a dv where du: "d u = Some (Finite a)" and dv: "d v = Some dv"
    and less: "dist_less (Finite (a + w)) dv"
    and s': "s' = (d(v \<mapsto> Finite (a + w)), p(v \<mapsto> Some u))"
    by (auto simp: relax_edge_def)
  let ?d = "d(v \<mapsto> Finite (a + w))" and ?p = "p(v \<mapsto> Some u)"
  from inv s have domd: "dom d = set (nodes G)" and domp: "dom p = set (nodes G)"
    and walk: "\<And>x b. d x = Some (Finite b) \<Longrightarrow> \<exists>es. is_walk (edges G) start es x \<and> weight es = b"
    and pred: "\<And>x y. p x = Some (Some y) \<Longrightarrow>
           \<exists>a b w. (y, x, w) \<in> set (edges G) \<and> d y = Some (Finite a)
              \<and> d x = Some (Finite b) \<and> a + w \<le> b"
    and root: "\<And>x. p x = Some None \<Longrightarrow> x = start \<or> d x = Some Infinity"
    and st: "\<exists>a. d start = Some (Finite a) \<and> a \<le> 0"
    by (auto simp: sp_inv_def)
  from dv domd have vn: "v \<in> set (nodes G)" by auto
  have 1: "dom ?d = set (nodes G)" using domd vn by auto
  have 2: "dom ?p = set (nodes G)" using domp vn by auto
  have mono: "\<exists>b'. ?d x = Some (Finite b') \<and> b' \<le> b" if "d x = Some (Finite b)" for x b
    using that dv less by (cases "x = v") (auto simp: dist_less_Finite)
  have 3: "\<exists>es. is_walk (edges G) start es x \<and> weight es = b" if "?d x = Some (Finite b)" for x b
  proof (cases "x = v")
    case True
    with that have b: "b = a + w" by simp
    from walk [OF du] obtain es where "is_walk (edges G) start es u" "weight es = a" by blast
    with e euvw have "is_walk (edges G) start (es @ [(u, v, w)]) v \<and> weight (es @ [(u, v, w)]) = a + w"
      by (simp add: is_walk_snoc)
    with True b show ?thesis by blast
  next
    case False
    with that show ?thesis by (simp add: walk)
  qed
  have 4: "\<exists>a b w. (y, x, w) \<in> set (edges G) \<and> ?d y = Some (Finite a)
              \<and> ?d x = Some (Finite b) \<and> a + w \<le> b" if "?p x = Some (Some y)" for x y
  proof (cases "x = v")
    case True
    with that have y: "y = u" by simp
    from mono [OF du] obtain a' where a': "?d u = Some (Finite a')" "a' \<le> a" by blast
    have "(u, v, w) \<in> set (edges G) \<and> ?d u = Some (Finite a') \<and> ?d v = Some (Finite (a + w))
       \<and> a' + w \<le> a + w"
      using e euvw a' by simp
    with True y show ?thesis by blast
  next
    case False
    with that have "p x = Some (Some y)" by simp
    from pred [OF this] obtain a1 b1 w1 where
      h: "(y, x, w1) \<in> set (edges G)" "d y = Some (Finite a1)" "d x = Some (Finite b1)" "a1 + w1 \<le> b1"
      by blast
    from mono [OF h(2)] obtain a' where a': "?d y = Some (Finite a')" "a' \<le> a1" by blast
    have "(y, x, w1) \<in> set (edges G) \<and> ?d y = Some (Finite a') \<and> ?d x = Some (Finite b1)
       \<and> a' + w1 \<le> b1"
      using h a' False by simp
    then show ?thesis by blast
  qed
  have 5: "x = start \<or> ?d x = Some Infinity" if "?p x = Some None" for x
  proof -
    from that have "x \<noteq> v" by auto
    with that root [of x] show ?thesis by simp
  qed
  from st mono have 6: "\<exists>a. ?d start = Some (Finite a) \<and> a \<le> 0"
    by (meson order_trans)
  show ?thesis
    unfolding sp_inv_def s' fst_conv snd_conv
    using 1 2 3 4 5 6 by blast
qed

lemma sp_inv_relaxes:
  "relaxes (edges G) s s' \<Longrightarrow> sp_inv G start s \<Longrightarrow> sp_inv G start s'"
  by (erule relaxes_invariant) (auto intro: sp_inv_relax_edge)

section \<open>The loops as sequences of relaxations\<close>

lemma build_graph_foldl:
  "foldl (\<lambda>gr (u, v, w). gr(u := gr u @ [(v, w)])) g es x
     = g x @ map (\<lambda>(a, b, w). (b, w)) (filter (\<lambda>(a, b, w). a = x) es)"
  by (induction es arbitrary: g) (auto split: prod.splits)

lemma build_graph_eq:
  "build_graph es x = map (\<lambda>(a, b, w). (b, w)) (filter (\<lambda>(a, b, w). a = x) es)"
  by (simp add: build_graph_def build_graph_foldl)

lemma build_graph_set: "(v, w) \<in> set (build_graph es u) \<longleftrightarrow> (u, v, w) \<in> set es"
  unfolding build_graph_eq by (induction es) auto

lemma relax_neighbors_relaxes:
  assumes "d current = Some (Finite a)"
    and "\<forall>(v, w) \<in> set ns. (current, v, w) \<in> set E \<and> v \<in> dom d"
  shows "\<exists>d' p'. relax_neighbors current ns (d, p) = Inr (d', p') \<and> relaxes E (d, p) (d', p')"
  using assms
proof (induction ns arbitrary: d p a)
  case Nil
  show ?case by (auto intro: relaxes_refl)
next
  case (Cons n ns)
  obtain v w where n: "n = (v, w)" by (cases n)
  from Cons.prems(2) n have e: "(current, v, w) \<in> set E" and "v \<in> dom d"
    and rest: "\<forall>(v, w) \<in> set ns. (current, v, w) \<in> set E \<and> v \<in> dom d"
    by auto
  then obtain dv where dv: "d v = Some dv" by auto
  show ?case
  proof (cases "dist_less (Finite (a + w)) dv")
    case True
    let ?d = "d(v \<mapsto> Finite (a + w))" and ?p = "p(v \<mapsto> Some current)"
    have r: "relax_edge (current, v, w) (d, p) (?d, ?p)"
      using Cons.prems(1) dv True by (auto simp: relax_edge_def)
    have c: "\<exists>a'. ?d current = Some (Finite a')" using Cons.prems(1) by simp
    then obtain a' where a': "?d current = Some (Finite a')" ..
    have "\<forall>(v, w) \<in> set ns. (current, v, w) \<in> set E \<and> v \<in> dom ?d"
      using rest by auto
    from Cons.IH [OF a' this, of ?p] obtain d' p' where
      h: "relax_neighbors current ns (?d, ?p) = Inr (d', p')" "relaxes E (?d, ?p) (d', p')"
      by blast
    from relaxes_step [OF e r h(2)] have "relaxes E (d, p) (d', p')" .
    moreover have "relax_neighbors current (n # ns) (d, p) = Inr (d', p')"
      using n Cons.prems(1) dv True h(1) by simp
    ultimately show ?thesis by blast
  next
    case False
    from Cons.IH [OF Cons.prems(1) rest, of p] obtain d' p' where
      h: "relax_neighbors current ns (d, p) = Inr (d', p')" "relaxes E (d, p) (d', p')"
      by blast
    moreover have "relax_neighbors current (n # ns) (d, p) = Inr (d', p')"
      using n Cons.prems(1) dv False h(1) by simp
    ultimately show ?thesis by blast
  qed
qed

lemma min_key_total:
  "\<forall>x \<in> set xs. x \<in> dom d \<Longrightarrow> \<exists>m. min_key d best kb xs = Inr m"
  by (induction xs arbitrary: best kb) auto

lemma py_min_total:
  "xs \<noteq> [] \<Longrightarrow> \<forall>x \<in> set xs. x \<in> dom d \<Longrightarrow> \<exists>m. py_min d xs = Inr m"
  by (cases xs) (auto simp: py_min_def intro: min_key_total)

text \<open>The element chosen by \<open>min\<close> has a key that none of the others is below.\<close>

lemma min_key_least:
  "min_key d best kb xs = Inr m \<Longrightarrow> d best = Some kb \<Longrightarrow>
   \<exists>km. d m = Some km \<and> \<not> dist_less kb km
     \<and> (\<forall>x \<in> set xs. \<forall>kx. d x = Some kx \<longrightarrow> \<not> dist_less kx km)"
proof (induction xs arbitrary: best kb)
  case Nil
  then show ?case by (cases kb) auto
next
  case (Cons x xs)
  from Cons.prems(1) obtain kx where kx: "d x = Some kx" by (auto split: sum.splits)
  show ?case
  proof (cases "dist_less kx kb")
    case True
    with Cons.prems(1) kx have "min_key d x kx xs = Inr m" by simp
    from Cons.IH [OF this kx] obtain km where
      km: "d m = Some km" "\<not> dist_less kx km"
        "\<forall>y \<in> set xs. \<forall>ky. d y = Some ky \<longrightarrow> \<not> dist_less ky km" by blast
    from True km(2) have "\<not> dist_less kb km"
      by (cases kx; cases kb; cases km) auto
    with km kx show ?thesis by auto
  next
    case False
    with Cons.prems(1) kx have "min_key d best kb xs = Inr m" by simp
    from Cons.IH [OF this Cons.prems(2)] obtain km where
      km: "d m = Some km" "\<not> dist_less kb km"
        "\<forall>y \<in> set xs. \<forall>ky. d y = Some ky \<longrightarrow> \<not> dist_less ky km" by blast
    from False km(2) have "\<not> dist_less kx km"
      by (cases kx; cases kb; cases km) auto
    with km kx show ?thesis by auto
  qed
qed

lemma py_min_least:
  assumes "py_min d xs = Inr m"
  shows "\<exists>km. d m = Some km \<and> (\<forall>x \<in> set xs. \<forall>kx. d x = Some kx \<longrightarrow> \<not> dist_less kx km)"
proof -
  from assms obtain x rest kx where xs: "xs = x # rest" and kx: "d x = Some kx"
    and m: "min_key d x kx rest = Inr m"
    by (auto simp: py_min_def split: list.splits sum.splits)
  from min_key_least [OF m kx] xs kx show ?thesis by auto
qed

text \<open>The state of Dijkstra's loop on a valid graph.\<close>

definition dj_base :: "graph \<Rightarrow> string \<Rightarrow> dstate \<Rightarrow> bool" where
  "dj_base G start st \<longleftrightarrow>
     sp_inv G start (distances st, previous st) \<and> set (unvisited st) \<subseteq> set (nodes G)"

lemma dj_base_body:
  assumes v: "valid_graph G" and b: "dj_base G start st" and ne: "unvisited st \<noteq> []"
  shows "\<exists>c st'. dijkstra_body (build_graph (edges G)) start end_id st = Inr (c, st')
           \<and> dj_base G start st'
           \<and> relaxes (edges G) (distances st, previous st) (distances st', previous st')"
proof -
  let ?d = "distances st" and ?gr = "build_graph (edges G)"
  from b have inv: "sp_inv G start (?d, previous st)" and sub: "set (unvisited st) \<subseteq> set (nodes G)"
    by (simp_all add: dj_base_def)
  from inv have dom: "dom ?d = set (nodes G)" by (simp add: sp_inv_def)
  with sub have "\<forall>x \<in> set (unvisited st). x \<in> dom ?d" by auto
  from py_min_total [OF ne this] obtain current where m: "py_min ?d (unvisited st) = Inr current"
    by blast
  from py_min_mem [OF m] sub dom obtain dc where dc: "?d current = Some dc" by auto
  show ?thesis
  proof (cases dc)
    case Infinity
    with m dc have "dijkstra_body ?gr start end_id st = Inr (False, st)"
      by (simp add: dijkstra_body_def)
    with b show ?thesis by (auto intro: relaxes_refl)
  next
    case (Finite a)
    let ?st1 = "st\<lparr>unvisited := remove1 current (unvisited st),
                  visit_order := (if current \<noteq> start then visit_order st @ [current]
                                  else visit_order st)\<rparr>"
    have sub1: "set (unvisited ?st1) \<subseteq> set (nodes G)"
      using sub set_remove1_subset [of current "unvisited st"] by auto
    show ?thesis
    proof (cases "current = end_id")
      case True
      with m dc Finite have "dijkstra_body ?gr start end_id st = Inr (False, ?st1)"
        by (simp add: dijkstra_body_def Let_def)
      moreover have "dj_base G start ?st1" using inv sub1 by (simp add: dj_base_def)
      moreover have "relaxes (edges G) (?d, previous st) (distances ?st1, previous ?st1)"
        by (simp add: relaxes_refl)
      ultimately show ?thesis by blast
    next
      case False
      have "\<forall>(x, w) \<in> set (?gr current). (current, x, w) \<in> set (edges G) \<and> x \<in> dom ?d"
        using v dom by (auto simp: build_graph_set valid_graph_def)
      from relax_neighbors_relaxes [OF _ this, of a "previous st"] dc Finite
      obtain d' p' where r: "relax_neighbors current (?gr current) (?d, previous st) = Inr (d', p')"
        and rs: "relaxes (edges G) (?d, previous st) (d', p')" by auto
      let ?st2 = "?st1\<lparr>distances := d', previous := p'\<rparr>"
      from m dc Finite False r have "dijkstra_body ?gr start end_id st = Inr (True, ?st2)"
        by (simp add: dijkstra_body_def Let_def)
      moreover from sp_inv_relaxes [OF rs inv] sub1 have "dj_base G start ?st2"
        by (simp add: dj_base_def)
      moreover from rs have "relaxes (edges G) (?d, previous st) (distances ?st2, previous ?st2)"
        by simp
      ultimately show ?thesis by blast
    qed
  qed
qed

lemma sp_inv_init:
  assumes "start \<in> set (nodes G)"
  shows "sp_inv G start
     ((\<lambda>node. if node \<in> set (nodes G) then Some Infinity else None)(start \<mapsto> Finite 0),
      (\<lambda>node. if node \<in> set (nodes G) then Some None else None))"
proof -
  have "is_walk (edges G) start [] start \<and> weight [] = 0" by simp
  then have "\<exists>es. is_walk (edges G) start es start \<and> weight es = 0" by blast
  with assms show ?thesis
    by (auto simp: sp_inv_def dom_def split: if_splits)
qed

lemma dj_base_init:
  "start \<in> set (nodes G) \<Longrightarrow> iteration_order G order \<Longrightarrow>
   dj_base G start (dijkstra_init G order start)"
  using sp_inv_init [of start G]
  by (simp add: dj_base_def dijkstra_init_def iteration_order_def)

text \<open>On a valid graph the main loop raises nothing.\<close>

lemma dijkstra_loop_valid:
  assumes "valid_graph G" and "start \<in> set (nodes G)" and "iteration_order G order"
  shows "\<exists>stf. dijkstra_loop (build_graph (edges G)) start end_id (dijkstra_init G order start)
           = Inr stf \<and> dj_base G start stf"
proof -
  let ?gr = "build_graph (edges G)"
  have i: "dj_base G start (dijkstra_init G order start)"
    using assms(2,3) by (rule dj_base_init)
  have "\<forall>st. dj_base G start st \<and> unvisited st \<noteq> [] \<longrightarrow>
      (\<exists>c st'. dijkstra_body ?gr start end_id st = Inr (c, st') \<and> dj_base G start st')"
    using dj_base_body [OF assms(1)] by blast
  from dijkstra_loop_total [where I = "dj_base G start", OF i this]
  obtain stf where l: "dijkstra_loop ?gr start end_id (dijkstra_init G order start) = Inr stf"
    by blast
  have "dj_base G start stf"
  proof (rule dijkstra_loop_partial [where I = "dj_base G start", OF l i])
    fix st c st'
    assume a: "dj_base G start st" "unvisited st \<noteq> []"
      "dijkstra_body ?gr start end_id st = Inr (c, st')"
    from dj_base_body [OF assms(1) a(1,2), of end_id] a(3) show "dj_base G start st'" by auto
  qed
  with l show ?thesis by blast
qed

lemma relaxes_dom: "relaxes E s s' \<Longrightarrow> dom (fst s') = dom (fst s)"
proof (induction rule: relaxes.induct)
  case (relaxes_refl s)
  show ?case by simp
next
  case (relaxes_step e s s' s'')
  from relax_edge_dom [OF relaxes_step(2)] relaxes_step.IH show ?case by simp
qed

lemma bf_pass_relaxes:
  assumes "\<forall>(u, v, w) \<in> set es. (u, v, w) \<in> set E \<and> u \<in> dom d \<and> v \<in> dom d"
  shows "\<exists>d' p' vo' up'. bf_pass start es (d, p, vo, up) = Inr (d', p', vo', up')
           \<and> relaxes E (d, p) (d', p')"
  using assms
proof (induction es arbitrary: d p vo up)
  case Nil
  show ?case by (auto intro: relaxes_refl)
next
  case (Cons e es)
  obtain u v w where e: "e = (u, v, w)" by (cases e)
  from Cons.prems e have mem: "(u, v, w) \<in> set E" and "u \<in> dom d" "v \<in> dom d"
    and rest: "\<forall>(u, v, w) \<in> set es. (u, v, w) \<in> set E \<and> u \<in> dom d \<and> v \<in> dom d"
    by auto
  then obtain du dv where du: "d u = Some du" and dv: "d v = Some dv" by auto
  show ?case
  proof (cases "\<exists>a. du = Finite a \<and> dist_less (Finite (a + w)) dv")
    case True
    then obtain a where a: "du = Finite a" "dist_less (Finite (a + w)) dv" by blast
    let ?d = "d(v \<mapsto> Finite (a + w))" and ?p = "p(v \<mapsto> Some u)"
    let ?vo = "if v \<notin> set vo \<and> v \<noteq> start then vo @ [v] else vo"
    have r: "relax_edge (u, v, w) (d, p) (?d, ?p)"
      using du dv a by (auto simp: relax_edge_def)
    have "\<forall>(u, v, w) \<in> set es. (u, v, w) \<in> set E \<and> u \<in> dom ?d \<and> v \<in> dom ?d"
      using rest by auto
    from Cons.IH [OF this, of ?p ?vo True] obtain d' p' vo' up' where
      h: "bf_pass start es (?d, ?p, ?vo, True) = Inr (d', p', vo', up')"
        "relaxes E (?d, ?p) (d', p')" by blast
    from relaxes_step [OF mem r h(2)] have "relaxes E (d, p) (d', p')" .
    moreover have "bf_pass start (e # es) (d, p, vo, up) = Inr (d', p', vo', up')"
      using e du dv a h(1) by simp
    ultimately show ?thesis by blast
  next
    case False
    from Cons.IH [OF rest, of p vo up] obtain d' p' vo' up' where
      h: "bf_pass start es (d, p, vo, up) = Inr (d', p', vo', up')"
        "relaxes E (d, p) (d', p')" by blast
    moreover have "bf_pass start (e # es) (d, p, vo, up) = Inr (d', p', vo', up')"
      using e du dv False h(1) by (cases du) auto
    ultimately show ?thesis by blast
  qed
qed

lemma bf_passes_relaxes:
  assumes "\<forall>(u, v, w) \<in> set es. u \<in> dom d \<and> v \<in> dom d"
  shows "\<exists>d' p' vo'. bf_passes n start es (d, p, vo) = Inr (d', p', vo')
           \<and> relaxes es (d, p) (d', p')"
  using assms
proof (induction n arbitrary: d p vo)
  case 0
  show ?case by (auto intro: relaxes_refl)
next
  case (Suc n)
  from Suc.prems have "\<forall>(u, v, w) \<in> set es. (u, v, w) \<in> set es \<and> u \<in> dom d \<and> v \<in> dom d"
    by auto
  from bf_pass_relaxes [OF this, of start p vo False] obtain d1 p1 vo1 up1 where
    h: "bf_pass start es (d, p, vo, False) = Inr (d1, p1, vo1, up1)"
      "relaxes es (d, p) (d1, p1)" by blast
  show ?case
  proof (cases up1)
    case False
    with h show ?thesis by auto
  next
    case True
    from relaxes_dom [OF h(2)] Suc.prems
    have "\<forall>(u, v, w) \<in> set es. u \<in> dom d1 \<and> v \<in> dom d1" by simp
    from Suc.IH [OF this, of p1 vo1] obtain d' p' vo' where
      h': "bf_passes n start es (d1, p1, vo1) = Inr (d', p', vo')"
        "relaxes es (d1, p1) (d', p')" by blast
    from relaxes_trans [OF h(2) h'(2)] h(1) h'(1) True show ?thesis by auto
  qed
qed

text \<open>An edge that can still be relaxed.\<close>

definition relaxable :: "dmap \<Rightarrow> edge \<Rightarrow> bool" where
  "relaxable d e \<longleftrightarrow>
     (case e of (u, v, w) \<Rightarrow>
        \<exists>a b. d u = Some (Finite a) \<and> d v = Some b \<and> dist_less (Finite (a + w)) b)"

lemma bf_check_iff:
  assumes "\<forall>(u, v, w) \<in> set es. u \<in> dom d \<and> v \<in> dom d"
  shows "bf_check es d = Inr (\<exists>e \<in> set es. relaxable d e)"
  using assms
proof (induction es)
  case Nil
  show ?case by simp
next
  case (Cons e es)
  obtain u v w where e: "e = (u, v, w)" by (cases e)
  from Cons.prems e obtain du dv where du: "d u = Some du" and dv: "d v = Some dv" by auto
  from Cons have IH: "bf_check es d = Inr (\<exists>e \<in> set es. relaxable d e)" by auto
  show ?case
  proof (cases "relaxable d e")
    case True
    with e du dv have "bf_check (e # es) d = Inr True"
      by (cases du) (auto simp: relaxable_def)
    with True show ?thesis by simp
  next
    case False
    with e du dv have "bf_check (e # es) d = bf_check es d"
      by (cases du) (auto simp: relaxable_def)
    with False IH show ?thesis by simp
  qed
qed

lemma bf_init_dom: "set (nodes G) \<subseteq> dom (fst (bf_init G start))"
  by (auto simp: bf_init_def)

lemma valid_graph_dom:
  "valid_graph G \<Longrightarrow> set (nodes G) \<subseteq> dom d \<Longrightarrow>
   \<forall>(u, v, w) \<in> set (edges G). u \<in> dom d \<and> v \<in> dom d"
  by (auto simp: valid_graph_def)

text \<open>On a valid graph the passes of Bellman-Ford raise nothing.\<close>

lemma bf_passes_valid:
  assumes "valid_graph G"
  shows "\<exists>d p vo. bf_passes n start (edges G) (bf_init G start) = Inr (d, p, vo)
           \<and> relaxes (edges G) (fst (bf_init G start), fst (snd (bf_init G start))) (d, p)
           \<and> set (nodes G) \<subseteq> dom d"
proof -
  obtain d0 p0 vo0 where i: "bf_init G start = (d0, p0, vo0)" by (cases "bf_init G start")
  with bf_init_dom [of G start] have d0: "set (nodes G) \<subseteq> dom d0" by simp
  from bf_passes_relaxes [OF valid_graph_dom [OF assms d0], of n start p0 vo0]
  obtain d p vo where h: "bf_passes n start (edges G) (d0, p0, vo0) = Inr (d, p, vo)"
    "relaxes (edges G) (d0, p0) (d, p)" by blast
  from relaxes_dom [OF h(2)] d0 have "set (nodes G) \<subseteq> dom d" by simp
  with h i show ?thesis by auto
qed

section \<open>The negative-cycle scan\<close>

lemma finish_not_error: "finish end_id d p vo name \<noteq> Some (Inr (ErrorResult msg name'))"
  by (simp add: finish_def split: option.splits sum.splits)

lemma relaxable_iff:
  "(\<exists>e \<in> set es. relaxable d e) \<longleftrightarrow>
   (\<exists>(u, v, w) \<in> set es. \<exists>a b. d u = Some (Finite a) \<and> d v = Some b \<and> dist_less (Finite (a + w)) b)"
  by (auto simp: relaxable_def)

text \<open>Claim C2. On a valid graph the relaxation passes end in some state, and
  \<open>bellman_ford\<close> returns the error dict, which has neither path nor distance, exactly
  when the scan over all edges finds an edge from \<open>u\<close> to \<open>v\<close> with \<open>distances[u]\<close> finite and
  \<open>distances[u] + w < distances[v]\<close> in that state. On the graph with the edges
  P to Q (1), Q to R (-3), R to Q (1), the query from P to R returns the error dict.\<close>

theorem bellman_ford_negative_cycle:
  assumes "valid_graph G"
  shows "(\<exists>d p vo. bf_passes (length (nodes G) - 1) start (edges G) (bf_init G start) = Inr (d, p, vo)
            \<and> (bellman_ford G start end_id
                  = Some (Inr (ErrorResult ''Negative cycle detected'' ''Bellman-Ford''))
                 \<longleftrightarrow> (\<exists>(u, v, w) \<in> set (edges G). \<exists>a b. d u = Some (Finite a) \<and> d v = Some b
                        \<and> dist_less (Finite (a + w)) b)))
     \<and> bellman_ford pqr_graph ''P'' ''R''
         = Some (Inr (ErrorResult ''Negative cycle detected'' ''Bellman-Ford''))"
proof (rule conjI)
  from bf_passes_valid [OF assms, of "length (nodes G) - 1" start] obtain d p vo where
    h: "bf_passes (length (nodes G) - 1) start (edges G) (bf_init G start) = Inr (d, p, vo)"
    and dom: "set (nodes G) \<subseteq> dom d" by blast
  from bf_check_iff [OF valid_graph_dom [OF assms dom]]
  have c: "bf_check (edges G) d = Inr (\<exists>e \<in> set (edges G). relaxable d e)" .
  have "bellman_ford G start end_id
          = Some (Inr (ErrorResult ''Negative cycle detected'' ''Bellman-Ford''))
        \<longleftrightarrow> (\<exists>e \<in> set (edges G). relaxable d e)"
  proof (cases "\<exists>e \<in> set (edges G). relaxable d e")
    case True
    with h c show ?thesis by (simp add: bellman_ford_def)
  next
    case False
    with h c have "bellman_ford G start end_id = finish end_id d p vo ''Bellman-Ford''"
      by (simp add: bellman_ford_def)
    with False finish_not_error show ?thesis by simp
  qed
  with h show "\<exists>d p vo. bf_passes (length (nodes G) - 1) start (edges G) (bf_init G start) = Inr (d, p, vo)
            \<and> (bellman_ford G start end_id
                  = Some (Inr (ErrorResult ''Negative cycle detected'' ''Bellman-Ford''))
                 \<longleftrightarrow> (\<exists>(u, v, w) \<in> set (edges G). \<exists>a b. d u = Some (Finite a) \<and> d v = Some b
                        \<and> dist_less (Finite (a + w)) b))"
    unfolding relaxable_iff by blast
next
  show "bellman_ford pqr_graph ''P'' ''R''
         = Some (Inr (ErrorResult ''Negative cycle detected'' ''Bellman-Ford''))"
    by code_simp
qed

theorem bellman_ford_negative_cycle_witness:
  "valid_graph pqr_graph
   \<and> bellman_ford pqr_graph ''P'' ''R''
       = Some (Inr (ErrorResult ''Negative cycle detected'' ''Bellman-Ford''))"
proof -
  have v: "valid_graph pqr_graph" by (simp add: valid_graph_def pqr_graph_def)
  from bellman_ford_negative_cycle [OF v, of "''P''" "''R''"]
  have "bellman_ford pqr_graph ''P'' ''R''
       = Some (Inr (ErrorResult ''Negative cycle detected'' ''Bellman-Ford''))"
    by (rule conjunct2)
  with v show ?thesis by (rule conjI)
qed

section \<open>The reconstructed path\<close>

text \<open>What a finished walk back along the predecessor links has produced: a raised
  \<open>KeyError\<close>, or the accumulated path extended at the front by a chain of predecessors
  that ends at the node where the walk began and starts at a node without predecessor.\<close>

definition walked_back ::
  "pmap \<Rightarrow> string option \<Rightarrow> string list \<Rightarrow> py_error + string list \<Rightarrow> bool" where
  "walked_back prev cur acc r \<longleftrightarrow>
     r = Inl KeyError \<or>
     (\<exists>pre. r = Inr (pre @ acc) \<and>
        (case cur of
           None \<Rightarrow> pre = []
         | Some c \<Rightarrow> pre \<noteq> [] \<and> last pre = c \<and> prev (hd pre) = Some None
             \<and> (\<forall>x \<in> set pre. x = c \<or> (\<exists>y. prev y = Some (Some x)))))"

lemma reconstruct_sound:
  assumes "reconstruct prev cur acc = Some r"
  shows "walked_back prev cur acc r"
proof (rule reconstruct.raw_induct [where P = walked_back, OF _ assms])
  fix rec prev cur acc r
  assume IH: "\<And>prev cur acc r. rec prev cur acc = Some r \<Longrightarrow> walked_back prev cur acc r"
    and eq: "(case cur of None \<Rightarrow> Some (Inr acc)
      | Some c \<Rightarrow> (case prev c of None \<Rightarrow> Some (Inl KeyError)
          | Some p \<Rightarrow> rec prev p (c # acc))) = Some r"
  show "walked_back prev cur acc r"
  proof (cases cur)
    case None
    with eq show ?thesis by (auto simp: walked_back_def)
  next
    case (Some c)
    show ?thesis
    proof (cases "prev c")
      case None
      with eq Some show ?thesis by (auto simp: walked_back_def)
    next
      case pc: (Some q)
      with eq Some have "rec prev q (c # acc) = Some r" by simp
      from IH [OF this] have "r = Inl KeyError \<or>
        (\<exists>pre. r = Inr (pre @ c # acc) \<and>
          (case q of None \<Rightarrow> pre = []
           | Some c' \<Rightarrow> pre \<noteq> [] \<and> last pre = c' \<and> prev (hd pre) = Some None
               \<and> (\<forall>x \<in> set pre. x = c' \<or> (\<exists>y. prev y = Some (Some x)))))"
        by (simp add: walked_back_def)
      then show ?thesis
      proof
        assume "r = Inl KeyError"
        then show ?thesis by (simp add: walked_back_def)
      next
        assume "\<exists>pre. r = Inr (pre @ c # acc) \<and>
          (case q of None \<Rightarrow> pre = []
           | Some c' \<Rightarrow> pre \<noteq> [] \<and> last pre = c' \<and> prev (hd pre) = Some None
               \<and> (\<forall>x \<in> set pre. x = c' \<or> (\<exists>y. prev y = Some (Some x))))"
        then obtain pre where r: "r = Inr (pre @ c # acc)" and
          q: "case q of None \<Rightarrow> pre = []
           | Some c' \<Rightarrow> pre \<noteq> [] \<and> last pre = c' \<and> prev (hd pre) = Some None
               \<and> (\<forall>x \<in> set pre. x = c' \<or> (\<exists>y. prev y = Some (Some x)))" by blast
        have 1: "r = Inr ((pre @ [c]) @ acc)" using r by simp
        have 2: "pre @ [c] \<noteq> [] \<and> last (pre @ [c]) = c \<and> prev (hd (pre @ [c])) = Some None
           \<and> (\<forall>x \<in> set (pre @ [c]). x = c \<or> (\<exists>y. prev y = Some (Some x)))"
        proof (cases q)
          case None
          with q pc show ?thesis by simp
        next
          case (Some c')
          with q have pre: "pre \<noteq> []" "last pre = c'" "prev (hd pre) = Some None"
            "\<forall>x \<in> set pre. x = c' \<or> (\<exists>y. prev y = Some (Some x))" by simp_all
          from pc Some have "prev c = Some (Some c')" by simp
          with pre show ?thesis by auto
        qed
        from 1 2 have "\<exists>pre'. r = Inr (pre' @ acc) \<and> pre' \<noteq> [] \<and> last pre' = c
           \<and> prev (hd pre') = Some None
           \<and> (\<forall>x \<in> set pre'. x = c \<or> (\<exists>y. prev y = Some (Some x)))"
          by blast
        with Some show ?thesis by (simp add: walked_back_def)
      qed
    qed
  qed
qed

section \<open>The ends of the returned path\<close>

lemma finish_Inr:
  assumes "finish end_id d p vo name = Some (Inr r)"
  obtains path0 de where "reconstruct p (Some end_id) [] = Some (Inr path0)" "d end_id = Some de"
    "r = PathResult de (if de \<noteq> Infinity then path0 else []) vo name"
proof (cases "reconstruct p (Some end_id) []")
  case None
  with assms show thesis by (simp add: finish_def)
next
  case (Some x)
  show thesis
  proof (cases x)
    case (Inl e)
    with assms Some show thesis by (simp add: finish_def)
  next
    case (Inr path0)
    show thesis
    proof (cases "d end_id")
      case None
      with assms Some Inr show thesis by (simp add: finish_def)
    next
      case de: (Some de)
      with assms Some Inr that [of path0 de] show thesis by (simp add: finish_def)
    qed
  qed
qed

lemma finish_path_ends:
  assumes inv: "sp_inv G start (d, p)"
    and f: "finish end_id d p vo name = Some (Inr (PathResult dd path vo' name'))"
    and ne: "path \<noteq> []"
  shows "hd path = start \<and> last path = end_id"
proof -
  from f obtain path0 de where rc: "reconstruct p (Some end_id) [] = Some (Inr path0)"
    and de: "d end_id = Some de"
    and r: "PathResult dd path vo' name' = PathResult de (if de \<noteq> Infinity then path0 else []) vo name"
    by (rule finish_Inr)
  from r ne have fin: "de \<noteq> Infinity" and p0: "path = path0" by (auto split: if_splits)
  from reconstruct_sound [OF rc] have ne0: "path0 \<noteq> []" and l: "last path0 = end_id"
    and root: "p (hd path0) = Some None"
    and links: "\<forall>x \<in> set path0. x = end_id \<or> (\<exists>y. p y = Some (Some x))"
    by (auto simp: walked_back_def)
  from ne0 have "hd path0 \<in> set path0" by simp
  with links have "hd path0 = end_id \<or> (\<exists>y. p y = Some (Some (hd path0)))" by blast
  then have "d (hd path0) \<noteq> Some Infinity"
  proof
    assume "hd path0 = end_id"
    with de fin show ?thesis by simp
  next
    assume "\<exists>y. p y = Some (Some (hd path0))"
    then obtain y where "p y = Some (Some (hd path0))" ..
    with inv obtain a where "d (hd path0) = Some (Finite a)"
      unfolding sp_inv_def fst_conv snd_conv by blast
    then show ?thesis by simp
  qed
  moreover from inv root have "hd path0 = start \<or> d (hd path0) = Some Infinity"
    unfolding sp_inv_def fst_conv snd_conv by blast
  ultimately have "hd path0 = start" by blast
  with l p0 show ?thesis by simp
qed

lemma bf_init_sp_inv:
  "start \<in> set (nodes G) \<Longrightarrow>
   sp_inv G start (fst (bf_init G start), fst (snd (bf_init G start)))"
  using sp_inv_init [of start G] by (simp add: bf_init_def)

lemma bf_passes_sp_inv:
  assumes "valid_graph G" and "start \<in> set (nodes G)"
  shows "\<exists>d p vo. bf_passes n start (edges G) (bf_init G start) = Inr (d, p, vo)
           \<and> sp_inv G start (d, p)"
proof -
  from bf_passes_valid [OF assms(1), of n start] obtain d p vo where
    h: "bf_passes n start (edges G) (bf_init G start) = Inr (d, p, vo)"
      "relaxes (edges G) (fst (bf_init G start), fst (snd (bf_init G start))) (d, p)"
    by blast
  from sp_inv_relaxes [OF h(2) bf_init_sp_inv [OF assms(2)]] h(1) show ?thesis by blast
qed

text \<open>Claim C5. On a valid graph with the start node in it, whenever \<open>dijkstra\<close> or
  \<open>bellman_ford\<close> returns a non-empty path, the path begins with the start node and
  ends with the end node.\<close>

theorem path_begins_with_start_ends_with_end:
  assumes "valid_graph G" and "start \<in> set (nodes G)" and "iteration_order G order"
  shows "(dijkstra G order start end_id = Some (Inr (PathResult dd path vo name)) \<and> path \<noteq> []
            \<longrightarrow> hd path = start \<and> last path = end_id)
     \<and> (bellman_ford G start end_id = Some (Inr (PathResult dd path vo name)) \<and> path \<noteq> []
            \<longrightarrow> hd path = start \<and> last path = end_id)"
proof (rule conjI; rule impI; elim conjE)
  assume r: "dijkstra G order start end_id = Some (Inr (PathResult dd path vo name))"
    and ne: "path \<noteq> []"
  from r obtain stf where
    l: "dijkstra_loop (build_graph (edges G)) start end_id (dijkstra_init G order start) = Inr stf"
    and f: "finish end_id (distances stf) (previous stf) (visit_order stf) ''Dijkstra''
              = Some (Inr (PathResult dd path vo name))"
    by (rule dijkstra_Inr)
  from dijkstra_loop_valid [OF assms, of end_id] l have "dj_base G start stf" by auto
  then have "sp_inv G start (distances stf, previous stf)" by (simp add: dj_base_def)
  from finish_path_ends [OF this f ne] show "hd path = start \<and> last path = end_id" .
next
  assume r: "bellman_ford G start end_id = Some (Inr (PathResult dd path vo name))"
    and ne: "path \<noteq> []"
  from r show "hd path = start \<and> last path = end_id"
  proof (cases rule: bellman_ford_Inr)
    case (1 d p vo0)
    then show ?thesis by simp
  next
    case (2 d p vo0)
    from bf_passes_sp_inv [OF assms(1,2), of "length (nodes G) - 1"] 2(1)
    have "sp_inv G start (d, p)" by auto
    from finish_path_ends [OF this 2(3) ne] show ?thesis .
  qed
qed

lemma default_valid: "valid_graph default_graph"
  by (simp add: valid_graph_def default_graph_def)

lemma default_order: "iteration_order default_graph [''A'', ''B'', ''C'', ''D'', ''E'']"
  by (simp add: iteration_order_def default_graph_def)

lemma default_dijkstra_A_C:
  "dijkstra default_graph [''A'', ''B'', ''C'', ''D'', ''E''] ''A'' ''C''
     = Some (Inr (PathResult (Finite 7) [''A'', ''B'', ''C''] [''E'', ''B'', ''D'', ''C''] ''Dijkstra''))"
  by code_simp

theorem path_begins_with_start_ends_with_end_witness:
  "valid_graph default_graph \<and> ''A'' \<in> set (nodes default_graph)
   \<and> iteration_order default_graph [''A'', ''B'', ''C'', ''D'', ''E'']
   \<and> dijkstra default_graph [''A'', ''B'', ''C'', ''D'', ''E''] ''A'' ''C''
       = Some (Inr (PathResult (Finite 7) [''A'', ''B'', ''C''] [''E'', ''B'', ''D'', ''C''] ''Dijkstra''))
   \<and> hd [''A'', ''B'', ''C''] = ''A'' \<and> last [''A'', ''B'', ''C''] = ''C''"
proof -
  have s: "''A'' \<in> set (nodes default_graph)" by (simp add: default_graph_def)
  have ne: "[''A'', ''B'', ''C''] \<noteq> []" by simp
  from path_begins_with_start_ends_with_end [OF default_valid s default_order,
      of "''C''" "Finite 7" "[''A'', ''B'', ''C'']" "[''E'', ''B'', ''D'', ''C'']" "''Dijkstra''"]
  have "dijkstra default_graph [''A'', ''B'', ''C'', ''D'', ''E''] ''A'' ''C''
       = Some (Inr (PathResult (Finite 7) [''A'', ''B'', ''C''] [''E'', ''B'', ''D'', ''C''] ''Dijkstra''))
       \<and> [''A'', ''B'', ''C''] \<noteq> []
     \<longrightarrow> hd [''A'', ''B'', ''C''] = ''A'' \<and> last [''A'', ''B'', ''C''] = ''C''"
    by (rule conjunct1)
  with default_dijkstra_A_C ne
  have "hd [''A'', ''B'', ''C''] = ''A'' \<and> last [''A'', ''B'', ''C''] = ''C''"
    by (simp only: simp_thms)
  with default_valid s default_order default_dijkstra_A_C show ?thesis by (simp only: simp_thms)
qed

section \<open>Queries with an id that names no node\<close>

lemma min_key_Infinity:
  "\<forall>x \<in> set xs. d x = Some Infinity \<Longrightarrow> min_key d best Infinity xs = Inr best"
  by (induction xs) auto

lemma dijkstra_loop_no_start:
  assumes "start \<notin> set (nodes G)" and "iteration_order G order"
  shows "dijkstra_loop gr start end_id (dijkstra_init G order start) = Inr (dijkstra_init G order start)"
proof (cases order)
  case Nil
  then show ?thesis by (simp add: dijkstra_init_def)
next
  case (Cons x xs)
  let ?st = "dijkstra_init G order start"
  from assms have inf: "\<forall>y \<in> set order. distances ?st y = Some Infinity"
    by (auto simp: dijkstra_init_def iteration_order_def)
  with Cons have x: "distances ?st x = Some Infinity"
    and "\<forall>y \<in> set xs. distances ?st y = Some Infinity" by simp_all
  from min_key_Infinity [OF this(2)] have "min_key (distances ?st) x Infinity xs = Inr x" .
  with x Cons have m: "py_min (distances ?st) (unvisited ?st) = Inr x"
    by (simp add: py_min_def dijkstra_init_def)
  with x have "dijkstra_body gr start end_id ?st = Inr (False, ?st)"
    by (simp add: dijkstra_body_def)
  moreover from Cons have "unvisited ?st \<noteq> []" by (simp add: dijkstra_init_def)
  ultimately show ?thesis by simp
qed

lemma bf_pass_idle:
  "\<forall>(u, v, w) \<in> set es. d u = Some Infinity \<Longrightarrow>
   bf_pass start es (d, p, vo, up) = Inr (d, p, vo, up)"
  by (induction es) auto

lemma bf_passes_idle:
  "\<forall>(u, v, w) \<in> set es. d u = Some Infinity \<Longrightarrow>
   bf_passes n start es (d, p, vo) = Inr (d, p, vo)"
  by (cases n) (simp_all add: bf_pass_idle)

lemma bf_check_idle:
  "\<forall>(u, v, w) \<in> set es. d u = Some Infinity \<Longrightarrow> bf_check es d = Inr False"
  by (induction es) auto

lemma finish_KeyError: "p end_id = None \<Longrightarrow> finish end_id d p vo name = Some (Inl KeyError)"
  by (simp add: finish_def)

lemma finish_unreached:
  "p end_id = Some None \<Longrightarrow> d end_id = Some Infinity \<Longrightarrow>
   finish end_id d p vo name = Some (Inr (PathResult Infinity [] vo name))"
  by (simp add: finish_def)

lemma bellman_ford_no_start:
  assumes "valid_graph G" and "start \<notin> set (nodes G)"
  shows "bellman_ford G start end_id
     = finish end_id (fst (bf_init G start)) (fst (snd (bf_init G start))) [] ''Bellman-Ford''"
proof -
  obtain d0 p0 where i: "bf_init G start = (d0, p0, [])" by (simp add: bf_init_def)
  from assms i have idle: "\<forall>(u, v, w) \<in> set (edges G). d0 u = Some Infinity"
    by (auto simp: bf_init_def valid_graph_def)
  from bf_passes_idle [OF idle] bf_check_idle [OF idle] i show ?thesis
    by (simp add: bellman_ford_def)
qed

text \<open>Claim C3, as the code has it. Neither method checks its arguments. On a valid
  graph, a start id that names no node, with an end id that names one, gives the result
  of an unreachable end node: infinite distance, empty path, empty visit order. An end
  id that names no node makes \<open>previous[end]\<close> raise \<open>KeyError\<close>, unless
  \<open>bellman_ford\<close> has returned the error dict before.\<close>

theorem missing_node_id:
  assumes "valid_graph G" and "iteration_order G order"
  shows "(start \<notin> set (nodes G) \<and> end_id \<in> set (nodes G) \<longrightarrow>
            dijkstra G order start end_id = Some (Inr (PathResult Infinity [] [] ''Dijkstra''))
            \<and> bellman_ford G start end_id = Some (Inr (PathResult Infinity [] [] ''Bellman-Ford'')))
     \<and> (end_id \<notin> set (nodes G) \<longrightarrow>
            dijkstra G order start end_id = Some (Inl KeyError)
            \<and> (bellman_ford G start end_id = Some (Inl KeyError)
               \<or> bellman_ford G start end_id
                   = Some (Inr (ErrorResult ''Negative cycle detected'' ''Bellman-Ford''))))"
proof (rule conjI; rule impI)
  assume a: "start \<notin> set (nodes G) \<and> end_id \<in> set (nodes G)"
  then have ne: "end_id \<noteq> start" by auto
  have "dijkstra G order start end_id
      = finish end_id (distances (dijkstra_init G order start))
          (previous (dijkstra_init G order start)) (visit_order (dijkstra_init G order start))
          ''Dijkstra''"
    using a dijkstra_loop_no_start [OF _ assms(2), of start "build_graph (edges G)" end_id]
    by (simp add: dijkstra_def)
  also have "\<dots> = Some (Inr (PathResult Infinity [] [] ''Dijkstra''))"
    using a ne by (simp add: dijkstra_init_def finish_unreached)
  finally have 1: "dijkstra G order start end_id
      = Some (Inr (PathResult Infinity [] [] ''Dijkstra''))" .
  have "bellman_ford G start end_id
     = finish end_id (fst (bf_init G start)) (fst (snd (bf_init G start))) [] ''Bellman-Ford''"
    using a bellman_ford_no_start [OF assms(1)] by simp
  also have "\<dots> = Some (Inr (PathResult Infinity [] [] ''Bellman-Ford''))"
    using a ne by (simp add: bf_init_def finish_unreached)
  finally have 2: "bellman_ford G start end_id
     = Some (Inr (PathResult Infinity [] [] ''Bellman-Ford''))" .
  from 1 2 show "dijkstra G order start end_id = Some (Inr (PathResult Infinity [] [] ''Dijkstra''))
            \<and> bellman_ford G start end_id = Some (Inr (PathResult Infinity [] [] ''Bellman-Ford''))"
    by (rule conjI)
next
  assume e: "end_id \<notin> set (nodes G)"
  have 1: "dijkstra G order start end_id = Some (Inl KeyError)"
  proof (cases "start \<in> set (nodes G)")
    case True
    from dijkstra_loop_valid [OF assms(1) True assms(2), of end_id] obtain stf where
      l: "dijkstra_loop (build_graph (edges G)) start end_id (dijkstra_init G order start) = Inr stf"
      and b: "dj_base G start stf" by blast
    from b e have "previous stf end_id = None"
      by (auto simp: dj_base_def sp_inv_def)
    with l show ?thesis by (simp add: dijkstra_def finish_KeyError)
  next
    case False
    from dijkstra_loop_no_start [OF False assms(2), of "build_graph (edges G)" end_id] e
    show ?thesis by (simp add: dijkstra_def dijkstra_init_def finish_KeyError)
  qed
  have 2: "bellman_ford G start end_id = Some (Inl KeyError)
       \<or> bellman_ford G start end_id
           = Some (Inr (ErrorResult ''Negative cycle detected'' ''Bellman-Ford''))"
  proof (cases "start \<in> set (nodes G)")
    case True
    from bf_passes_sp_inv [OF assms(1) True, of "length (nodes G) - 1"] obtain d p vo where
      h: "bf_passes (length (nodes G) - 1) start (edges G) (bf_init G start) = Inr (d, p, vo)"
      and inv: "sp_inv G start (d, p)" by blast
    from inv have "set (nodes G) \<subseteq> dom d" by (simp add: sp_inv_def)
    from bf_check_iff [OF valid_graph_dom [OF assms(1) this]]
    have c: "bf_check (edges G) d = Inr (\<exists>e \<in> set (edges G). relaxable d e)" .
    from inv e have "p end_id = None" by (auto simp: sp_inv_def)
    then have "finish end_id d p vo ''Bellman-Ford'' = Some (Inl KeyError)"
      by (rule finish_KeyError)
    with h c show ?thesis
      by (cases "\<exists>e \<in> set (edges G). relaxable d e") (simp_all add: bellman_ford_def)
  next
    case False
    from bellman_ford_no_start [OF assms(1) False, of end_id] e show ?thesis
      by (simp add: bf_init_def finish_KeyError)
  qed
  from 1 2 show "dijkstra G order start end_id = Some (Inl KeyError)
            \<and> (bellman_ford G start end_id = Some (Inl KeyError)
               \<or> bellman_ford G start end_id
                   = Some (Inr (ErrorResult ''Negative cycle detected'' ''Bellman-Ford'')))"
    by (rule conjI)
qed

theorem missing_node_id_witness:
  "valid_graph default_graph \<and> iteration_order default_graph [''A'', ''B'', ''C'', ''D'', ''E'']
   \<and> ''Z'' \<notin> set (nodes default_graph) \<and> ''C'' \<in> set (nodes default_graph)
   \<and> dijkstra default_graph [''A'', ''B'', ''C'', ''D'', ''E''] ''Z'' ''C''
       = Some (Inr (PathResult Infinity [] [] ''Dijkstra''))
   \<and> bellman_ford default_graph ''Z'' ''C'' = Some (Inr (PathResult Infinity [] [] ''Bellman-Ford''))
   \<and> dijkstra default_graph [''A'', ''B'', ''C'', ''D'', ''E''] ''A'' ''Z'' = Some (Inl KeyError)"
proof -
  have z: "''Z'' \<notin> set (nodes default_graph)" and c: "''C'' \<in> set (nodes default_graph)"
    by (simp_all add: default_graph_def)
  note t = missing_node_id [OF default_valid default_order]
  from t [of "''Z''" "''C''"] z c
  have 1: "dijkstra default_graph [''A'', ''B'', ''C'', ''D'', ''E''] ''Z'' ''C''
       = Some (Inr (PathResult Infinity [] [] ''Dijkstra''))
    \<and> bellman_ford default_graph ''Z'' ''C'' = Some (Inr (PathResult Infinity [] [] ''Bellman-Ford''))"
    by (simp only: simp_thms)
  from t [of "''A''" "''Z''"] z
  have 2: "dijkstra default_graph [''A'', ''B'', ''C'', ''D'', ''E''] ''A'' ''Z'' = Some (Inl KeyError)"
    by (simp only: simp_thms)
  from default_valid default_order z c 1 2 show ?thesis by (simp only: simp_thms)
qed

text \<open>The claim as stated fails: a start id that names no node gives no failure.\<close>

theorem missing_start_counterexample:
  "''Z'' \<notin> set (nodes default_graph)
   \<and> dijkstra default_graph [''A'', ''B'', ''C'', ''D'', ''E''] ''Z'' ''C''
       = Some (Inr (PathResult Infinity [] [] ''Dijkstra''))
   \<and> bellman_ford default_graph ''Z'' ''C'' = Some (Inr (PathResult Infinity [] [] ''Bellman-Ford''))"
  by code_simp

section \<open>The default graph, from A to C\<close>

lemma py_min_unique:
  assumes m: "m \<in> set xs" and dm: "d m = Some km"
    and others: "\<forall>x \<in> set xs. x \<noteq> m \<longrightarrow> (\<exists>kx. d x = Some kx \<and> dist_less km kx)"
  shows "py_min d xs = Inr m"
proof -
  from m have ne: "xs \<noteq> []" by auto
  from m dm others have "\<forall>x \<in> set xs. x \<in> dom d" by auto
  from py_min_total [OF ne this] obtain m' where m': "py_min d xs = Inr m'" by blast
  from py_min_least [OF m'] obtain km' where km': "d m' = Some km'"
    and least: "\<forall>x \<in> set xs. \<forall>kx. d x = Some kx \<longrightarrow> \<not> dist_less kx km'" by blast
  have "m' = m"
  proof (rule ccontr)
    assume "m' \<noteq> m"
    with py_min_mem [OF m'] others km' have "dist_less km km'" by auto
    moreover from least m dm have "\<not> dist_less km km'" by blast
    ultimately show False by simp
  qed
  with m' show ?thesis by simp
qed

lemma dijkstra_loop_settle:
  assumes "current \<in> set u" and "d current = Some (Finite a)"
    and "\<forall>x \<in> set u. x \<noteq> current \<longrightarrow> (\<exists>kx. d x = Some kx \<and> dist_less (Finite a) kx)"
    and "current \<noteq> end_id"
    and "relax_neighbors current (gr current) (d, p) = Inr (d', p')"
  shows "dijkstra_loop gr start end_id
           \<lparr>distances = d, previous = p, unvisited = u, visit_order = vo\<rparr>
       = dijkstra_loop gr start end_id
           \<lparr>distances = d', previous = p', unvisited = remove1 current u,
            visit_order = (if current \<noteq> start then vo @ [current] else vo)\<rparr>"
proof -
  let ?st = "\<lparr>distances = d, previous = p, unvisited = u, visit_order = vo\<rparr>"
  from py_min_unique [OF assms(1,2,3)] have "py_min d u = Inr current" .
  with assms(2,4,5) have "dijkstra_body gr start end_id ?st
    = Inr (True, \<lparr>distances = d', previous = p', unvisited = remove1 current u,
            visit_order = (if current \<noteq> start then vo @ [current] else vo)\<rparr>)"
    by (simp add: dijkstra_body_def Let_def)
  moreover from assms(1) have "unvisited ?st \<noteq> []" by auto
  ultimately show ?thesis by (subst dijkstra_loop.simps) simp
qed

lemma dijkstra_loop_settle_end:
  assumes "end_id \<in> set u" and "d end_id = Some (Finite a)"
    and "\<forall>x \<in> set u. x \<noteq> end_id \<longrightarrow> (\<exists>kx. d x = Some kx \<and> dist_less (Finite a) kx)"
  shows "dijkstra_loop gr start end_id
           \<lparr>distances = d, previous = p, unvisited = u, visit_order = vo\<rparr>
       = Inr \<lparr>distances = d, previous = p, unvisited = remove1 end_id u,
            visit_order = (if end_id \<noteq> start then vo @ [end_id] else vo)\<rparr>"
proof -
  let ?st = "\<lparr>distances = d, previous = p, unvisited = u, visit_order = vo\<rparr>"
  from py_min_unique [OF assms(1,2,3)] have "py_min d u = Inr end_id" .
  with assms(2) have "dijkstra_body gr start end_id ?st
    = Inr (False, \<lparr>distances = d, previous = p, unvisited = remove1 end_id u,
            visit_order = (if end_id \<noteq> start then vo @ [end_id] else vo)\<rparr>)"
    by (simp add: dijkstra_body_def Let_def)
  moreover from assms(1) have "unvisited ?st \<noteq> []" by auto
  ultimately show ?thesis by (subst dijkstra_loop.simps) simp
qed

lemma default_adjacency:
  "build_graph (edges default_graph) ''A'' = [(''B'', 4), (''E'', 2)]"
  "build_graph (edges default_graph) ''B'' = [(''C'', 3), (''D'', 1)]"
  "build_graph (edges default_graph) ''D'' = [(''E'', 3)]"
  "build_graph (edges default_graph) ''E'' = [(''B'', 7)]"
  by (simp_all add: build_graph_def default_graph_def)

lemma default_loop:
  assumes "iteration_order default_graph order"
  shows "dijkstra_loop (build_graph (edges default_graph)) ''A'' ''C''
           (dijkstra_init default_graph order ''A'')
     = Inr \<lparr>distances = (distances (dijkstra_init default_graph order ''A''))
               (''B'' \<mapsto> Finite 4, ''E'' \<mapsto> Finite 2, ''C'' \<mapsto> Finite 7, ''D'' \<mapsto> Finite 5),
            previous = (previous (dijkstra_init default_graph order ''A''))
               (''B'' \<mapsto> Some ''A'', ''E'' \<mapsto> Some ''A'', ''C'' \<mapsto> Some ''B'', ''D'' \<mapsto> Some ''B''),
            unvisited = [],
            visit_order = [''E'', ''B'', ''D'', ''C'']\<rparr>"
proof -
  let ?gr = "build_graph (edges default_graph)"
  from assms have dist: "distinct order" and set: "set order = {''A'', ''B'', ''C'', ''D'', ''E''}"
    by (simp_all add: iteration_order_def default_graph_def)
  define d0 :: dmap where "d0 = distances (dijkstra_init default_graph order ''A'')"
  define p0 :: pmap where "p0 = previous (dijkstra_init default_graph order ''A'')"
  have d0: "d0 ''A'' = Some (Finite 0)" "d0 ''B'' = Some Infinity" "d0 ''C'' = Some Infinity"
    "d0 ''D'' = Some Infinity" "d0 ''E'' = Some Infinity"
    by (simp_all add: d0_def dijkstra_init_def default_nodes)
  have i: "dijkstra_init default_graph order ''A''
     = \<lparr>distances = d0, previous = p0, unvisited = order, visit_order = []\<rparr>"
    by (simp add: d0_def p0_def dijkstra_init_def)
  let ?d1 = "d0(''B'' \<mapsto> Finite 4, ''E'' \<mapsto> Finite 2)"
  let ?p1 = "p0(''B'' \<mapsto> Some ''A'', ''E'' \<mapsto> Some ''A'')"
  let ?d2 = "?d1(''C'' \<mapsto> Finite 7, ''D'' \<mapsto> Finite 5)"
  let ?p2 = "?p1(''C'' \<mapsto> Some ''B'', ''D'' \<mapsto> Some ''B'')"
  let ?u1 = "remove1 ''A'' order"
  let ?u2 = "remove1 ''E'' ?u1"
  let ?u3 = "remove1 ''B'' ?u2"
  let ?u4 = "remove1 ''D'' ?u3"
  have u1: "set ?u1 = {''B'', ''C'', ''D'', ''E''}" using dist set by auto
  have u2: "set ?u2 = {''B'', ''C'', ''D''}" using dist set by auto
  have u3: "set ?u3 = {''C'', ''D''}" using dist set by auto
  have u4: "set ?u4 = {''C''}" using dist set by auto
  have u5: "remove1 ''C'' ?u4 = []"
  proof -
    from dist have "distinct ?u4" by simp
    with u4 have "set (remove1 ''C'' ?u4) = {}" by simp
    then show ?thesis by simp
  qed
  have "dijkstra_loop ?gr ''A'' ''C'' \<lparr>distances = d0, previous = p0, unvisited = order, visit_order = []\<rparr>
      = dijkstra_loop ?gr ''A'' ''C'' \<lparr>distances = ?d1, previous = ?p1, unvisited = ?u1, visit_order = []\<rparr>"
    by (subst dijkstra_loop_settle [where current = "''A''" and a = 0 and d' = ?d1 and p' = ?p1])
       (simp_all add: set d0 default_adjacency)
  also have "\<dots> = dijkstra_loop ?gr ''A'' ''C''
       \<lparr>distances = ?d1, previous = ?p1, unvisited = ?u2, visit_order = [''E'']\<rparr>"
    by (subst dijkstra_loop_settle [where current = "''E''" and a = 2 and d' = ?d1 and p' = ?p1])
       (simp_all add: u1 d0 default_adjacency)
  also have "\<dots> = dijkstra_loop ?gr ''A'' ''C''
       \<lparr>distances = ?d2, previous = ?p2, unvisited = ?u3, visit_order = [''E'', ''B'']\<rparr>"
    by (subst dijkstra_loop_settle [where current = "''B''" and a = 4 and d' = ?d2 and p' = ?p2])
       (simp_all add: u2 d0 default_adjacency)
  also have "\<dots> = dijkstra_loop ?gr ''A'' ''C''
       \<lparr>distances = ?d2, previous = ?p2, unvisited = ?u4, visit_order = [''E'', ''B'', ''D'']\<rparr>"
    by (subst dijkstra_loop_settle [where current = "''D''" and a = 5 and d' = ?d2 and p' = ?p2])
       (simp_all add: u3 d0 default_adjacency)
  also have "\<dots> = Inr \<lparr>distances = ?d2, previous = ?p2, unvisited = [],
       visit_order = [''E'', ''B'', ''D'', ''C'']\<rparr>"
    by (subst dijkstra_loop_settle_end [where a = 7]) (simp_all add: u4 u5 d0)
  finally show ?thesis unfolding i [symmetric] d0_def p0_def
    by (simp add: dijkstra_init_def)
qed

text \<open>Claim C4. On the graph built by \<open>__init__\<close>, whatever the iteration order of the
  node set, \<open>dijkstra\<close> from A to C returns distance 7 and the path A, B, C (and the visit
  order E, B, D, C).\<close>

theorem scenario_dijkstra_A_C:
  assumes "iteration_order default_graph order"
  shows "dijkstra default_graph order ''A'' ''C''
     = Some (Inr (PathResult (Finite 7) [''A'', ''B'', ''C''] [''E'', ''B'', ''D'', ''C''] ''Dijkstra''))"
proof -
  have "dijkstra default_graph order ''A'' ''C''
     = (case dijkstra_loop (build_graph (edges default_graph)) ''A'' ''C''
               (dijkstra_init default_graph order ''A'') of
          Inl e \<Rightarrow> Some (Inl e)
        | Inr st \<Rightarrow> finish ''C'' (distances st) (previous st) (visit_order st) ''Dijkstra'')"
    by (simp only: dijkstra_def)
  also have "\<dots> = Some (Inr (PathResult (Finite 7) [''A'', ''B'', ''C'']
       [''E'', ''B'', ''D'', ''C''] ''Dijkstra''))"
    unfolding default_loop [OF assms]
    by (simp add: finish_def dijkstra_init_def default_nodes)
  finally show ?thesis .
qed

theorem scenario_dijkstra_A_C_witness:
  "iteration_order default_graph [''E'', ''D'', ''C'', ''B'', ''A'']
   \<and> dijkstra default_graph [''E'', ''D'', ''C'', ''B'', ''A''] ''A'' ''C''
     = Some (Inr (PathResult (Finite 7) [''A'', ''B'', ''C''] [''E'', ''B'', ''D'', ''C''] ''Dijkstra''))"
proof -
  have o: "iteration_order default_graph [''E'', ''D'', ''C'', ''B'', ''A'']"
    by (simp add: iteration_order_def default_nodes) blast
  from o scenario_dijkstra_A_C [OF o] show ?thesis by (rule conjI)
qed

section \<open>Shortest distances\<close>

definition nonneg :: "graph \<Rightarrow> bool" where
  "nonneg G \<longleftrightarrow> (\<forall>(u, v, w) \<in> set (edges G). 0 \<le> w)"

text \<open>No cycle of negative weight can be reached from the start node: every closed walk
  at a node that a walk from the start reaches has a weight of at least 0.\<close>

definition no_negative_cycle :: "graph \<Rightarrow> string \<Rightarrow> bool" where
  "no_negative_cycle G start \<longleftrightarrow>
     (\<forall>x p c. is_walk (edges G) start p x \<and> is_walk (edges G) x c x \<longrightarrow> 0 \<le> weight c)"

text \<open>\<open>dv\<close> is the distance from the start node to \<open>v\<close>: the least weight of a walk, or
  infinite when there is no walk.\<close>

definition shortest :: "graph \<Rightarrow> string \<Rightarrow> string \<Rightarrow> dist \<Rightarrow> bool" where
  "shortest G start v dv \<longleftrightarrow>
     (case dv of
        Finite a \<Rightarrow> (\<exists>p. is_walk (edges G) start p v \<and> weight p = a)
                    \<and> (\<forall>p. is_walk (edges G) start p v \<longrightarrow> a \<le> weight p)
      | Infinity \<Rightarrow> (\<forall>p. \<not> is_walk (edges G) start p v))"

lemma shortest_unique:
  assumes "shortest G start v d1" and "shortest G start v d2"
  shows "d1 = d2"
proof (cases d1; cases d2)
  fix a b
  assume d: "d1 = Finite a" "d2 = Finite b"
  with assms have "a \<le> b" "b \<le> a" unfolding shortest_def by (simp; blast)+
  with d show ?thesis by simp
qed (use assms in \<open>auto simp: shortest_def\<close>)

lemma walk_weight_nonneg:
  "nonneg G \<Longrightarrow> is_walk (edges G) u p v \<Longrightarrow> 0 \<le> weight p"
proof (induction p arbitrary: u)
  case Nil
  show ?case by simp
next
  case (Cons e p)
  obtain a b w where e: "e = (a, b, w)" by (cases e)
  with Cons.prems have "0 \<le> w" and "is_walk (edges G) b p v"
    by (auto simp: nonneg_def)
  with Cons.IH [OF Cons.prems(1)] e show ?case by simp
qed

lemma nonneg_no_negative_cycle: "nonneg G \<Longrightarrow> no_negative_cycle G start"
  unfolding no_negative_cycle_def by (blast intro: walk_weight_nonneg)

section \<open>The walk back ends\<close>

text \<open>Following the predecessor links from \<open>v\<close> reaches a node without predecessor.\<close>

inductive chain :: "pmap \<Rightarrow> string \<Rightarrow> bool" for p where
  chain_root: "p v = Some None \<Longrightarrow> chain p v"
| chain_link: "p v = Some (Some u) \<Longrightarrow> chain p u \<Longrightarrow> chain p v"

lemma reconstruct_chain:
  "chain p v \<Longrightarrow> \<exists>path. reconstruct p (Some v) acc = Some (Inr path)"
proof (induction arbitrary: acc rule: chain.induct)
  case (chain_root v)
  then show ?case by simp
next
  case (chain_link v u)
  from chain_link.IH [of "v # acc"] chain_link.hyps(1) show ?case by simp
qed

lemma chain_relax_edge:
  assumes inv: "sp_inv G start s" and nn: "nonneg G" and e: "e \<in> set (edges G)"
    and r: "relax_edge e s s'" and all: "\<forall>x \<in> set (nodes G). chain (snd s) x"
  shows "\<forall>x \<in> set (nodes G). chain (snd s') x"
proof -
  obtain d p where s: "s = (d, p)" by (cases s)
  obtain u v w where euvw: "e = (u, v, w)" by (cases e)
  from r s euvw obtain a dv where du: "d u = Some (Finite a)" and dv: "d v = Some dv"
    and less: "dist_less (Finite (a + w)) dv"
    and s': "s' = (d(v \<mapsto> Finite (a + w)), p(v \<mapsto> Some u))"
    by (auto simp: relax_edge_def)
  define p' where "p' = p(v \<mapsto> Some u)"
  have p'v: "p' v = Some (Some u)" and p'x: "\<And>x. x \<noteq> v \<Longrightarrow> p' x = p x"
    by (simp_all add: p'_def)
  from nn e euvw have w: "0 \<le> w" by (auto simp: nonneg_def)
  from inv s have domd: "dom d = set (nodes G)"
    and pred: "\<And>x y. p x = Some (Some y) \<Longrightarrow>
           \<exists>a b w. (y, x, w) \<in> set (edges G) \<and> d y = Some (Finite a)
              \<and> d x = Some (Finite b) \<and> a + w \<le> b"
    by (auto simp: sp_inv_def)
  have below: "chain p' x" if "chain p x" and "d x = Some (Finite b)" and "b \<le> a" for x b
    using that
  proof (induction arbitrary: b rule: chain.induct)
    case (chain_root x)
    from chain_root(2,3) dv less w have "x \<noteq> v" by (auto simp: dist_less_Finite)
    with chain_root(1) p'x have "p' x = Some None" by simp
    then show ?case by (rule chain.chain_root)
  next
    case (chain_link x y)
    from chain_link(4,5) dv less w have "x \<noteq> v" by (auto simp: dist_less_Finite)
    with chain_link(1) p'x have px: "p' x = Some (Some y)" by simp
    from pred [OF chain_link(1)] obtain a1 b1 w1 where
      h: "(y, x, w1) \<in> set (edges G)" "d y = Some (Finite a1)" "d x = Some (Finite b1)"
        "a1 + w1 \<le> b1" by blast
    from nn h(1) have "0 \<le> w1" by (auto simp: nonneg_def)
    with h(3,4) chain_link(4,5) have "a1 \<le> a" by simp
    from chain_link.IH [OF h(2) this] have "chain p' y" .
    with px show ?case by (rule chain.chain_link)
  qed
  from du domd have "u \<in> set (nodes G)" by auto
  with all s have "chain p u" by simp
  from below [OF this du] have cu: "chain p' u" by simp
  from p'v cu have cv: "chain p' v" by (rule chain.chain_link)
  have "chain p' x" if "chain p x" for x
    using that
  proof (induction rule: chain.induct)
    case (chain_root x)
    show ?case
    proof (cases "x = v")
      case True
      with cv show ?thesis by simp
    next
      case False
      with chain_root p'x have "p' x = Some None" by simp
      then show ?thesis by (rule chain.chain_root)
    qed
  next
    case (chain_link x y)
    show ?case
    proof (cases "x = v")
      case True
      with cv show ?thesis by simp
    next
      case False
      with chain_link(1) p'x have "p' x = Some (Some y)" by simp
      then show ?thesis using chain_link.IH by (rule chain.chain_link)
    qed
  qed
  with all s s' show ?thesis by (simp add: p'_def)
qed

text \<open>With weights that are not negative, the predecessor links never form a cycle.\<close>

definition chain_inv :: "graph \<Rightarrow> string \<Rightarrow> dmap \<times> pmap \<Rightarrow> bool" where
  "chain_inv G start s \<longleftrightarrow> sp_inv G start s \<and> (\<forall>x \<in> set (nodes G). chain (snd s) x)"

lemma chain_inv_relaxes:
  assumes "nonneg G" and "relaxes (edges G) s s'" and "chain_inv G start s"
  shows "chain_inv G start s'"
  using assms(2,3)
proof (rule relaxes_invariant)
  fix e s s'
  assume "e \<in> set (edges G)" "chain_inv G start s" "relax_edge e s s'"
  with sp_inv_relax_edge [of G start s e s'] chain_relax_edge [of G start s e s', OF _ assms(1)]
  show "chain_inv G start s'" by (simp add: chain_inv_def)
qed

lemma chain_inv_init:
  assumes "start \<in> set (nodes G)"
  shows "chain_inv G start
     ((\<lambda>node. if node \<in> set (nodes G) then Some Infinity else None)(start \<mapsto> Finite 0),
      (\<lambda>node. if node \<in> set (nodes G) then Some None else None))"
  using sp_inv_init [OF assms] by (simp add: chain_inv_def chain_root)

text \<open>With the links free of cycles and the end node in the graph, \<open>finish\<close> returns a
  result.\<close>

lemma finish_chain:
  assumes "chain_inv G start (d, p)" and "end_id \<in> set (nodes G)"
  shows "\<exists>de path. d end_id = Some de
      \<and> finish end_id d p vo name
          = Some (Inr (PathResult de (if de \<noteq> Infinity then path else []) vo name))"
proof -
  from assms have "chain p end_id" by (simp add: chain_inv_def)
  from reconstruct_chain [OF this, of "[]"] obtain path where
    rc: "reconstruct p (Some end_id) [] = Some (Inr path)" by blast
  from assms have "end_id \<in> dom d" by (simp add: chain_inv_def sp_inv_def)
  then obtain de where de: "d end_id = Some de" by auto
  with rc have "finish end_id d p vo name
          = Some (Inr (PathResult de (if de \<noteq> Infinity then path else []) vo name))"
    by (simp add: finish_def del: reconstruct_Some)
  with de show ?thesis by blast
qed

section \<open>The iterations of the main loop\<close>

text \<open>The main loop of Dijkstra with a bound on the number of runs of its body: \<open>None\<close>
  when the bound is used up before the loop has ended.\<close>

fun dijkstra_steps ::
  "nat \<Rightarrow> (string \<Rightarrow> (string \<times> int) list) \<Rightarrow> string \<Rightarrow> string \<Rightarrow> dstate \<Rightarrow>
   (py_error + dstate) option" where
  "dijkstra_steps 0 gr start end_id st = (if unvisited st = [] then Some (Inr st) else None)"
| "dijkstra_steps (Suc n) gr start end_id st =
     (if unvisited st = [] then Some (Inr st)
      else
        (case dijkstra_body gr start end_id st of
           Inl e \<Rightarrow> Some (Inl e)
         | Inr (continue, st') \<Rightarrow>
             if continue then dijkstra_steps n gr start end_id st' else Some (Inr st')))"

text \<open>The scenario of the single edge from X to Y, queried from Y to X, after the first
  run of the body.\<close>

definition xy_second :: dstate where
  "xy_second =
     \<lparr>distances = distances (dijkstra_init xy_graph [''X'', ''Y''] ''Y''),
      previous = previous (dijkstra_init xy_graph [''X'', ''Y''] ''Y''),
      unvisited = [''X''],
      visit_order = []\<rparr>"

text \<open>The loop ends after exactly \<open>dijkstra_iterations\<close> runs of its body.\<close>

lemma dijkstra_steps_iterations:
  "dijkstra_steps n gr start end_id st
     = (if dijkstra_iterations gr start end_id st \<le> n
        then Some (dijkstra_loop gr start end_id st) else None)"
proof (induction n arbitrary: st)
  case 0
  show ?case
  proof (cases "unvisited st = []")
    case True
    then show ?thesis by simp
  next
    case False
    then have "dijkstra_iterations gr start end_id st \<noteq> 0"
      by (simp split: sum.splits prod.splits)
    with False show ?thesis by simp
  qed
next
  case (Suc n)
  show ?case
  proof (cases "unvisited st = []")
    case True
    then show ?thesis by simp
  next
    case ne: False
    show ?thesis
    proof (cases "dijkstra_body gr start end_id st")
      case (Inl e)
      with ne show ?thesis by simp
    next
      case (Inr r)
      obtain c st' where r: "r = (c, st')" by (cases r)
      show ?thesis
      proof (cases c)
        case True
        with ne Inr r Suc.IH [of st'] show ?thesis by simp
      next
        case False
        with ne Inr r show ?thesis by simp
      qed
    qed
  qed
qed

text \<open>What one run of the body does to the unvisited set.\<close>

lemma dijkstra_body_removal:
  assumes d: "distinct (unvisited st)" and b: "dijkstra_body gr start end_id st = Inr (c, st')"
  shows "\<exists>current dc. py_min (distances st) (unvisited st) = Inr current
      \<and> distances st current = Some dc
      \<and> (if dc = Infinity then \<not> c \<and> st' = st
         else current \<in> set (unvisited st) \<and> distinct (unvisited st')
           \<and> set (unvisited st') = set (unvisited st) - {current}
           \<and> Suc (length (unvisited st')) = length (unvisited st)
           \<and> (c \<longleftrightarrow> current \<noteq> end_id))"
  using b
proof (cases rule: dijkstra_body_cases)
  case stop
  from b obtain current dc where m: "py_min (distances st) (unvisited st) = Inr current"
    and dc: "distances st current = Some dc"
    by (auto simp: dijkstra_body_def split: sum.splits)
  have "dc = Infinity"
  proof (rule ccontr)
    assume "dc \<noteq> Infinity"
    with b m dc have "unvisited st' = remove1 current (unvisited st)"
      by (auto simp: dijkstra_body_def Let_def split: if_splits sum.splits)
    with stop(2) have "remove1 current (unvisited st) = unvisited st" by simp
    moreover have "length (remove1 current (unvisited st)) < length (unvisited st)"
    proof -
      from py_min_mem [OF m] have mem: "current \<in> set (unvisited st)" .
      then have "length (unvisited st) \<noteq> 0" by auto
      with mem show ?thesis by (simp add: length_remove1)
    qed
    ultimately show False by simp
  qed
  with m dc stop show ?thesis by auto
next
  case (settle current a)
  from py_min_mem [OF settle(1)] have m: "current \<in> set (unvisited st)" .
  then have "length (unvisited st) \<noteq> 0" by auto
  with m have l: "Suc (length (remove1 current (unvisited st))) = length (unvisited st)"
    by (simp add: length_remove1)
  from settle(5,6) have c: "c \<longleftrightarrow> current \<noteq> end_id" by blast
  from d settle(3) have "distinct (unvisited st')"
    and "set (unvisited st') = set (unvisited st) - {current}" by simp_all
  with m l c settle(1,2,3) show ?thesis by auto
qed

text \<open>Claim C9, as the code has it. For every iteration order of the node set, the
  main loop ends after exactly \<open>dijkstra_iterations\<close> runs of its body, and that number
  is at most \<open>|nodes|\<close>. A run of the body selects the unvisited node of least
  distance. When that distance is infinite the run removes nothing, leaves the state as
  it is and ends the loop; otherwise it removes exactly the selected node from the
  unvisited set, and the loop goes on unless that node is the end node.\<close>

theorem dijkstra_loop_iteration_bound:
  assumes "iteration_order G order"
  shows "dijkstra_iterations gr start end_id (dijkstra_init G order start) \<le> length (nodes G)
    \<and> (\<forall>n. dijkstra_steps n gr start end_id (dijkstra_init G order start)
            = (if dijkstra_iterations gr start end_id (dijkstra_init G order start) \<le> n
               then Some (dijkstra_loop gr start end_id (dijkstra_init G order start)) else None))
    \<and> dijkstra_steps (length (nodes G)) gr start end_id (dijkstra_init G order start)
         = Some (dijkstra_loop gr start end_id (dijkstra_init G order start))
    \<and> (\<forall>st c st'. distinct (unvisited st) \<and> dijkstra_body gr start end_id st = Inr (c, st') \<longrightarrow>
          (\<exists>current dc. py_min (distances st) (unvisited st) = Inr current
             \<and> distances st current = Some dc
             \<and> (if dc = Infinity then \<not> c \<and> st' = st
                else current \<in> set (unvisited st) \<and> distinct (unvisited st')
                  \<and> set (unvisited st') = set (unvisited st) - {current}
                  \<and> Suc (length (unvisited st')) = length (unvisited st)
                  \<and> (c \<longleftrightarrow> current \<noteq> end_id))))"
proof -
  let ?i = "dijkstra_init G order start"
  have "dijkstra_iterations gr start end_id ?i \<le> length order"
    using dijkstra_iterations_le [of gr start end_id ?i] by (simp add: dijkstra_init_def)
  with iteration_order_length [OF assms]
  have 1: "dijkstra_iterations gr start end_id ?i \<le> length (nodes G)" by simp
  have 2: "\<forall>n. dijkstra_steps n gr start end_id ?i
            = (if dijkstra_iterations gr start end_id ?i \<le> n
               then Some (dijkstra_loop gr start end_id ?i) else None)"
    by (simp only: dijkstra_steps_iterations simp_thms)
  from 1 have 3: "dijkstra_steps (length (nodes G)) gr start end_id ?i
         = Some (dijkstra_loop gr start end_id ?i)"
    by (simp only: dijkstra_steps_iterations if_True)
  have 4: "\<forall>st c st'. distinct (unvisited st) \<and> dijkstra_body gr start end_id st = Inr (c, st') \<longrightarrow>
          (\<exists>current dc. py_min (distances st) (unvisited st) = Inr current
             \<and> distances st current = Some dc
             \<and> (if dc = Infinity then \<not> c \<and> st' = st
                else current \<in> set (unvisited st) \<and> distinct (unvisited st')
                  \<and> set (unvisited st') = set (unvisited st) - {current}
                  \<and> Suc (length (unvisited st')) = length (unvisited st)
                  \<and> (c \<longleftrightarrow> current \<noteq> end_id)))"
    using dijkstra_body_removal [of _ gr start end_id] by blast
  from 1 2 3 4 show ?thesis by (intro conjI)
qed

theorem dijkstra_loop_iteration_bound_witness:
  "iteration_order default_graph [''A'', ''B'', ''C'', ''D'', ''E'']
   \<and> dijkstra_iterations (build_graph (edges default_graph)) ''A'' ''C''
        (dijkstra_init default_graph [''A'', ''B'', ''C'', ''D'', ''E''] ''A'') \<le> length (nodes default_graph)
   \<and> dijkstra_steps (length (nodes default_graph)) (build_graph (edges default_graph)) ''A'' ''C''
        (dijkstra_init default_graph [''A'', ''B'', ''C'', ''D'', ''E''] ''A'')
       = Some (dijkstra_loop (build_graph (edges default_graph)) ''A'' ''C''
           (dijkstra_init default_graph [''A'', ''B'', ''C'', ''D'', ''E''] ''A''))
   \<and> distinct (unvisited (dijkstra_init default_graph [''A'', ''B'', ''C'', ''D'', ''E''] ''A''))
   \<and> dijkstra_body (build_graph (edges default_graph)) ''A'' ''C''
        (dijkstra_init default_graph [''A'', ''B'', ''C'', ''D'', ''E''] ''A'') = Inr (True, after_first)
   \<and> (\<exists>current dc.
         py_min (distances (dijkstra_init default_graph [''A'', ''B'', ''C'', ''D'', ''E''] ''A''))
           (unvisited (dijkstra_init default_graph [''A'', ''B'', ''C'', ''D'', ''E''] ''A'')) = Inr current
         \<and> distances (dijkstra_init default_graph [''A'', ''B'', ''C'', ''D'', ''E''] ''A'') current = Some dc
         \<and> (if dc = Infinity
             then \<not> True \<and> after_first = dijkstra_init default_graph [''A'', ''B'', ''C'', ''D'', ''E''] ''A''
             else current \<in> set (unvisited (dijkstra_init default_graph [''A'', ''B'', ''C'', ''D'', ''E''] ''A''))
               \<and> distinct (unvisited after_first)
               \<and> set (unvisited after_first)
                  = set (unvisited (dijkstra_init default_graph [''A'', ''B'', ''C'', ''D'', ''E''] ''A'')) - {current}
               \<and> Suc (length (unvisited after_first))
                  = length (unvisited (dijkstra_init default_graph [''A'', ''B'', ''C'', ''D'', ''E''] ''A''))
               \<and> (True \<longleftrightarrow> current \<noteq> ''C'')))"
proof -
  let ?o = "[''A'', ''B'', ''C'', ''D'', ''E'']"
  let ?i = "dijkstra_init default_graph ?o ''A''"
  let ?gr = "build_graph (edges default_graph)"
  have o: "iteration_order default_graph ?o"
    by (simp add: iteration_order_def default_graph_def)
  have d: "distinct (unvisited ?i)" by (simp add: dijkstra_init_def)
  note t = dijkstra_loop_iteration_bound [OF o, of ?gr "''A''" "''C''"]
  from t have bound: "dijkstra_iterations ?gr ''A'' ''C'' ?i \<le> length (nodes default_graph)"
    by (rule conjunct1)
  from t have steps: "dijkstra_steps (length (nodes default_graph)) ?gr ''A'' ''C'' ?i
       = Some (dijkstra_loop ?gr ''A'' ''C'' ?i)"
    by (elim conjE)
  from t have "distinct (unvisited ?i) \<and> dijkstra_body ?gr ''A'' ''C'' ?i = Inr (True, after_first) \<longrightarrow>
     (\<exists>current dc. py_min (distances ?i) (unvisited ?i) = Inr current
         \<and> distances ?i current = Some dc
         \<and> (if dc = Infinity then \<not> True \<and> after_first = ?i
             else current \<in> set (unvisited ?i) \<and> distinct (unvisited after_first)
               \<and> set (unvisited after_first) = set (unvisited ?i) - {current}
               \<and> Suc (length (unvisited after_first)) = length (unvisited ?i)
               \<and> (True \<longleftrightarrow> current \<noteq> ''C'')))"
    by (elim conjE allE)
  with d default_first_iteration
  have "\<exists>current dc. py_min (distances ?i) (unvisited ?i) = Inr current
         \<and> distances ?i current = Some dc
         \<and> (if dc = Infinity then \<not> True \<and> after_first = ?i
             else current \<in> set (unvisited ?i) \<and> distinct (unvisited after_first)
               \<and> set (unvisited after_first) = set (unvisited ?i) - {current}
               \<and> Suc (length (unvisited after_first)) = length (unvisited ?i)
               \<and> (True \<longleftrightarrow> current \<noteq> ''C''))"
    by (rule_tac mp) (assumption, rule conjI)
  with o bound steps d default_first_iteration show ?thesis by (intro conjI)
qed

text \<open>The claim as stated fails in the scenario of the single edge from X to Y, queried
  from Y to X: the body runs twice, and its second run, which meets the infinite
  minimum, removes no node.\<close>

theorem iteration_without_removal_counterexample:
  "dijkstra_body (build_graph (edges xy_graph)) ''Y'' ''X''
       (dijkstra_init xy_graph [''X'', ''Y''] ''Y'') = Inr (True, xy_second)
   \<and> unvisited xy_second = [''X'']
   \<and> dijkstra_body (build_graph (edges xy_graph)) ''Y'' ''X'' xy_second = Inr (False, xy_second)
   \<and> dijkstra_iterations (build_graph (edges xy_graph)) ''Y'' ''X''
       (dijkstra_init xy_graph [''X'', ''Y''] ''Y'') = 2"
proof -
  let ?gr = "build_graph (edges xy_graph)"
  let ?i = "dijkstra_init xy_graph [''X'', ''Y''] ''Y''"
  have g: "?gr ''Y'' = []" by (simp add: build_graph_def xy_graph_def)
  have n: "nodes xy_graph = [''X'', ''Y'']" by (simp add: xy_graph_def)
  have 1: "dijkstra_body ?gr ''Y'' ''X'' ?i = Inr (True, xy_second)"
    by (simp add: dijkstra_body_def g dijkstra_init_def py_min_def xy_second_def Let_def n)
  have 2: "unvisited xy_second = [''X'']" by (simp add: xy_second_def)
  have 3: "dijkstra_body ?gr ''Y'' ''X'' xy_second = Inr (False, xy_second)"
    by (simp add: dijkstra_body_def dijkstra_init_def py_min_def xy_second_def Let_def n)
  have i: "unvisited ?i \<noteq> []" by (simp add: dijkstra_init_def)
  have x: "unvisited xy_second \<noteq> []" by (simp add: xy_second_def)
  have "dijkstra_iterations ?gr ''Y'' ''X'' xy_second = 1"
    using x 3 by (subst dijkstra_iterations.simps) simp
  with i 1 have 4: "dijkstra_iterations ?gr ''Y'' ''X'' ?i = 2"
    by (subst dijkstra_iterations.simps) simp
  from 1 2 3 4 show ?thesis by (intro conjI)
qed

section \<open>Dijkstra computes the distance\<close>

lemma dijkstra_loop_rule:
  "I st \<Longrightarrow>
   \<forall>st. I st \<and> unvisited st \<noteq> [] \<longrightarrow>
      (\<exists>c st'. dijkstra_body gr start end_id st = Inr (c, st') \<and> (if c then I st' else Q st')) \<Longrightarrow>
   \<forall>st. I st \<and> unvisited st = [] \<longrightarrow> Q st \<Longrightarrow>
   \<exists>stf. dijkstra_loop gr start end_id st = Inr stf \<and> Q stf"
proof (induction gr start end_id st rule: dijkstra_loop.induct)
  case (1 gr start end_id st)
  show ?case
  proof (cases "unvisited st = []")
    case True
    with "1.prems"(1,3) have "Q st" by blast
    with True show ?thesis by simp
  next
    case ne: False
    with "1.prems"(1,2) obtain c st' where b: "dijkstra_body gr start end_id st = Inr (c, st')"
      and next_state: "if c then I st' else Q st'" by blast
    show ?thesis
    proof (cases c)
      case True
      with next_state have "I st'" by simp
      from "1.IH" [OF ne b refl True this "1.prems"(2,3)]
      obtain stf where "dijkstra_loop gr start end_id st' = Inr stf" "Q stf" by blast
      with True ne b show ?thesis by simp
    next
      case False
      with next_state have "Q st'" by simp
      with False ne b show ?thesis by simp
    qed
  qed
qed

lemma relax_neighbors_Cons_cases:
  assumes "relax_neighbors current ((v, w) # ns) (d, p) = Inr r"
  obtains (skip) dc dv where "d current = Some dc" "d v = Some dv"
      "\<not> dist_less (dist_add dc w) dv" "relax_neighbors current ns (d, p) = Inr r"
  | (relax) dc dv where "d current = Some dc" "d v = Some dv"
      "dist_less (dist_add dc w) dv"
      "relax_neighbors current ns (d(v \<mapsto> dist_add dc w), p(v \<mapsto> Some current)) = Inr r"
proof -
  from assms obtain dc where dc: "d current = Some dc" by (simp split: sum.splits)
  with assms obtain dv where dv: "d v = Some dv" by (simp split: sum.splits)
  show thesis
  proof (cases "dist_less (dist_add dc w) dv")
    case True
    with assms dc dv show thesis by (intro relax [of dc dv]) simp_all
  next
    case False
    with assms dc dv show thesis by (intro skip [of dc dv]) simp_all
  qed
qed

text \<open>The inner loop of Dijkstra, when no weight is negative and the current node has
  the finite distance \<open>a\<close>: the current node keeps its distance, no distance grows, every
  new distance is at least \<open>a\<close>, and every neighbour ends at most \<open>a + w\<close> away.\<close>

lemma relax_neighbors_nonneg:
  assumes "relax_neighbors current ns (d, p) = Inr (d', p')"
    and "d current = Some (Finite a)" and "\<forall>(v, w) \<in> set ns. 0 \<le> w"
  shows "d' current = Some (Finite a)
     \<and> (\<forall>x b. d x = Some (Finite b) \<longrightarrow> (\<exists>b'. d' x = Some (Finite b') \<and> b' \<le> b))
     \<and> (\<forall>x b'. d' x = Some (Finite b') \<longrightarrow> d x = Some (Finite b') \<or> a \<le> b')
     \<and> (\<forall>(v, w) \<in> set ns. \<exists>b. d' v = Some (Finite b) \<and> b \<le> a + w)"
  using assms
proof (induction ns arbitrary: d p)
  case Nil
  then show ?case by simp
next
  case (Cons n ns)
  obtain v w where n: "n = (v, w)" by (cases n)
  from Cons.prems(3) n have w: "0 \<le> w" and rest: "\<forall>(v, w) \<in> set ns. 0 \<le> w" by auto
  from Cons.prems(1) [unfolded n] show ?case
  proof (cases rule: relax_neighbors_Cons_cases)
    case (skip dc dv)
    with Cons.prems(2) have dc: "dc = Finite a" by simp
    from skip(3) dc obtain b where b: "dv = Finite b" "b \<le> a + w"
      by (cases dv) auto
    note IH = Cons.IH [OF skip(4) Cons.prems(2) rest]
    from IH skip(2) b obtain b' where "d' v = Some (Finite b')" "b' \<le> a + w"
      by (meson order_trans)
    with IH n show ?thesis by simp
  next
    case (relax dc dv)
    with Cons.prems(2) have dc: "dc = Finite a" by simp
    let ?d = "d(v \<mapsto> Finite (a + w))"
    from relax(3) dc w relax(2) Cons.prems(2) have vc: "v \<noteq> current"
      by (auto simp: dist_less_Finite)
    then have c: "?d current = Some (Finite a)" using Cons.prems(2) by simp
    from relax(4) dc have r: "relax_neighbors current ns (?d, p(v \<mapsto> Some current)) = Inr (d', p')"
      by simp
    note IH = Cons.IH [OF r c rest]
    have mono1: "\<exists>b1. ?d x = Some (Finite b1) \<and> b1 \<le> b" if "d x = Some (Finite b)" for x b
      using that relax(2,3) dc by (cases "x = v") (auto simp: dist_less_Finite)
    have 1: "d' current = Some (Finite a)" using IH by simp
    have 2: "\<exists>b'. d' x = Some (Finite b') \<and> b' \<le> b" if "d x = Some (Finite b)" for x b
    proof -
      from mono1 [OF that] obtain b1 where "?d x = Some (Finite b1)" "b1 \<le> b" by blast
      with IH show ?thesis by (meson order_trans)
    qed
    have 3: "d x = Some (Finite b') \<or> a \<le> b'" if "d' x = Some (Finite b')" for x b'
    proof -
      from IH that have "?d x = Some (Finite b') \<or> a \<le> b'" by blast
      then show ?thesis using w by (cases "x = v") auto
    qed
    have "\<exists>b. d' v = Some (Finite b) \<and> b \<le> a + w"
    proof -
      have "?d v = Some (Finite (a + w))" by simp
      with IH show ?thesis by blast
    qed
    with IH n have 4: "\<forall>(v, w) \<in> set (n # ns). \<exists>b. d' v = Some (Finite b) \<and> b \<le> a + w"
      by simp
    from 1 2 3 4 show ?thesis by blast
  qed
qed

text \<open>Every edge out of a settled node is relaxed, and no settled node is farther than
  an unsettled one.\<close>

definition settled_relaxed :: "graph \<Rightarrow> dstate \<Rightarrow> bool" where
  "settled_relaxed G st \<longleftrightarrow>
     (\<forall>(u, v, w) \<in> set (edges G). u \<notin> set (unvisited st) \<longrightarrow>
        (\<exists>a b. distances st u = Some (Finite a) \<and> distances st v = Some (Finite b) \<and> b \<le> a + w))"

definition settled_below :: "graph \<Rightarrow> dstate \<Rightarrow> bool" where
  "settled_below G st \<longleftrightarrow>
     (\<forall>u \<in> set (nodes G) - set (unvisited st).
        \<exists>a. distances st u = Some (Finite a)
          \<and> (\<forall>v \<in> set (unvisited st). \<forall>b. distances st v = Some (Finite b) \<longrightarrow> a \<le> b))"

definition dj_inv :: "graph \<Rightarrow> string \<Rightarrow> string \<Rightarrow> dstate \<Rightarrow> bool" where
  "dj_inv G start end_id st \<longleftrightarrow>
     chain_inv G start (distances st, previous st)
     \<and> set (unvisited st) \<subseteq> set (nodes G) \<and> distinct (unvisited st)
     \<and> end_id \<in> set (unvisited st)
     \<and> settled_relaxed G st \<and> settled_below G st"

text \<open>The state in which the loop ends.\<close>

definition dj_final :: "graph \<Rightarrow> string \<Rightarrow> string \<Rightarrow> dstate \<Rightarrow> bool" where
  "dj_final G start end_id st \<longleftrightarrow>
     chain_inv G start (distances st, previous st)
     \<and> (\<exists>de. distances st end_id = Some de \<and> shortest G start end_id de)"

text \<open>Every walk from the start passes a node whose tentative distance is at most the
  weight of the walk, and that is unsettled or the end of the walk.\<close>

lemma walk_bound:
  assumes inv: "sp_inv G start (distances st, previous st)"
    and rel: "settled_relaxed G st" and nn: "nonneg G"
  shows "is_walk (edges G) start p x \<Longrightarrow>
    \<exists>y a. distances st y = Some (Finite a) \<and> a \<le> weight p \<and> (y = x \<or> y \<in> set (unvisited st))"
proof (induction p arbitrary: x rule: rev_induct)
  case Nil
  then have "x = start" by simp
  with inv show ?case by (auto simp: sp_inv_def)
next
  case (snoc e p)
  obtain u v w where e: "e = (u, v, w)" by (cases e)
  with snoc.prems have "is_walk (edges G) start p u \<and> (u, v, w) \<in> set (edges G) \<and> v = x"
    by (auto simp: is_walk_snoc)
  then have wu: "is_walk (edges G) start p u" and mem: "(u, v, w) \<in> set (edges G)"
    and v: "v = x" by blast+
  from nn mem have w: "0 \<le> w" by (auto simp: nonneg_def)
  from snoc.IH [OF wu] obtain y a where y: "distances st y = Some (Finite a)" "a \<le> weight p"
    "y = u \<or> y \<in> set (unvisited st)" by blast
  show ?case
  proof (cases "y \<in> set (unvisited st)")
    case True
    from y(2) w e have "a \<le> weight (p @ [e])" by simp
    with y(1) True show ?thesis by blast
  next
    case False
    with y(3) have yu: "y = u" by simp
    with False rel mem obtain a' b where "distances st u = Some (Finite a')"
      "distances st v = Some (Finite b)" "b \<le> a' + w"
      unfolding settled_relaxed_def by blast
    with y(1,2) yu have "distances st x = Some (Finite b) \<and> b \<le> weight (p @ [e])"
      using v e by simp
    then show ?thesis by blast
  qed
qed

lemma dj_inv_body:
  assumes v: "valid_graph G" and nn: "nonneg G" and inv: "dj_inv G start end_id st"
  shows "\<exists>c st'. dijkstra_body (build_graph (edges G)) start end_id st = Inr (c, st')
           \<and> (if c then dj_inv G start end_id st' else dj_final G start end_id st')"
proof -
  let ?d = "distances st" and ?p = "previous st" and ?gr = "build_graph (edges G)"
  let ?U = "unvisited st"
  from inv have ci: "chain_inv G start (?d, ?p)" and sub: "set ?U \<subseteq> set (nodes G)"
    and dist: "distinct ?U" and e: "end_id \<in> set ?U"
    and rel: "settled_relaxed G st" and bel: "settled_below G st"
    by (simp_all add: dj_inv_def)
  from ci have si: "sp_inv G start (?d, ?p)" by (simp add: chain_inv_def)
  then have dom: "dom ?d = set (nodes G)" by (simp add: sp_inv_def)
  from e have ne: "?U \<noteq> []" by auto
  from sub dom have "\<forall>x \<in> set ?U. x \<in> dom ?d" by auto
  from py_min_total [OF ne this] obtain current where m: "py_min ?d ?U = Inr current" by blast
  from py_min_mem [OF m] have cm: "current \<in> set ?U" .
  from py_min_least [OF m] obtain dc where dc: "?d current = Some dc"
    and least: "\<forall>x \<in> set ?U. \<forall>kx. ?d x = Some kx \<longrightarrow> \<not> dist_less kx dc" by blast
  from e sub dom obtain de where de: "?d end_id = Some de" by auto
  note wb = walk_bound [OF si rel nn]
  show ?thesis
  proof (cases dc)
    case Infinity
    with m dc have b: "dijkstra_body ?gr start end_id st = Inr (False, st)"
      by (simp add: dijkstra_body_def)
    have inf: "?d x = Some Infinity" if "x \<in> set ?U" for x
    proof -
      from that sub dom obtain kx where kx: "?d x = Some kx" by auto
      with least that Infinity have "\<not> dist_less kx Infinity" by blast
      with kx show ?thesis by (cases kx) auto
    qed
    have "\<not> is_walk (edges G) start p end_id" for p
    proof
      assume "is_walk (edges G) start p end_id"
      from wb [OF this] obtain y a where "?d y = Some (Finite a)" "y = end_id \<or> y \<in> set ?U"
        by blast
      with inf e show False by auto
    qed
    with inf [OF e] have "shortest G start end_id Infinity \<and> ?d end_id = Some Infinity"
      by (simp add: shortest_def)
    with ci have "dj_final G start end_id st" unfolding dj_final_def by blast
    with b show ?thesis by (intro exI [where x = False] exI [where x = st]) simp
  next
    case (Finite a)
    let ?st1 = "st\<lparr>unvisited := remove1 current ?U,
                  visit_order := (if current \<noteq> start then visit_order st @ [current]
                                  else visit_order st)\<rparr>"
    from dist have U1: "set (remove1 current ?U) = set ?U - {current}" by simp
    have least_a: "a \<le> b" if "x \<in> set ?U" "?d x = Some (Finite b)" for x b
      using least that Finite by auto
    show ?thesis
    proof (cases "current = end_id")
      case True
      with m dc Finite have b: "dijkstra_body ?gr start end_id st = Inr (False, ?st1)"
        by (simp add: dijkstra_body_def Let_def)
      from si dc Finite True obtain q where q: "is_walk (edges G) start q end_id" "weight q = a"
        unfolding sp_inv_def fst_conv by blast
      have "a \<le> weight p" if "is_walk (edges G) start p end_id" for p
      proof -
        from wb [OF that] obtain y b where y: "?d y = Some (Finite b)" "b \<le> weight p"
          "y = end_id \<or> y \<in> set ?U" by blast
        with e have "y \<in> set ?U" by auto
        from least_a [OF this y(1)] y(2) show ?thesis by simp
      qed
      with q have "shortest G start end_id (Finite a)" unfolding shortest_def by auto
      moreover from dc Finite True have "distances ?st1 end_id = Some (Finite a)" by simp
      ultimately have "dj_final G start end_id ?st1" using ci by (simp add: dj_final_def)
      with b show ?thesis by (intro exI [where x = False] exI [where x = ?st1]) simp
    next
      case False
      have nbr: "\<forall>(x, w) \<in> set (?gr current). (current, x, w) \<in> set (edges G) \<and> x \<in> dom ?d"
        using v dom by (auto simp: build_graph_set valid_graph_def)
      from relax_neighbors_relaxes [OF _ nbr, of a ?p] dc Finite
      obtain d' p' where r: "relax_neighbors current (?gr current) (?d, ?p) = Inr (d', p')"
        and rs: "relaxes (edges G) (?d, ?p) (d', p')" by auto
      let ?st2 = "?st1\<lparr>distances := d', previous := p'\<rparr>"
      from m dc Finite False r have b: "dijkstra_body ?gr start end_id st = Inr (True, ?st2)"
        by (simp add: dijkstra_body_def Let_def)
      have "\<forall>(x, w) \<in> set (?gr current). 0 \<le> w"
        using nn by (auto simp: build_graph_set nonneg_def)
      from relax_neighbors_nonneg [OF r _ this, of a] dc Finite
      have R4: "d' current = Some (Finite a)"
        and R1: "\<And>x b. ?d x = Some (Finite b) \<Longrightarrow> \<exists>b'. d' x = Some (Finite b') \<and> b' \<le> b"
        and R2: "\<And>x b'. d' x = Some (Finite b') \<Longrightarrow> ?d x = Some (Finite b') \<or> a \<le> b'"
        and R3: "\<And>x w. (x, w) \<in> set (?gr current) \<Longrightarrow> \<exists>b. d' x = Some (Finite b) \<and> b \<le> a + w"
        by blast+
      have settled: "\<exists>au. ?d u = Some (Finite au) \<and> d' u = Some (Finite au) \<and> au \<le> a
          \<and> (\<forall>x \<in> set ?U. \<forall>b. ?d x = Some (Finite b) \<longrightarrow> au \<le> b)"
        if "u \<in> set (nodes G)" "u \<notin> set ?U" for u
      proof -
        from bel that obtain au where au: "?d u = Some (Finite au)"
          and low: "\<forall>x \<in> set ?U. \<forall>b. ?d x = Some (Finite b) \<longrightarrow> au \<le> b"
          unfolding settled_below_def by blast
        from low cm dc Finite have le: "au \<le> a" by simp
        from R1 [OF au] obtain b' where b': "d' u = Some (Finite b')" "b' \<le> au" by blast
        from R2 [OF b'(1)] au le b'(2) have "b' = au" by auto
        with au b' le low show ?thesis by blast
      qed
      have 1: "chain_inv G start (d', p')" using nn rs ci by (rule chain_inv_relaxes)
      have 2: "set (remove1 current ?U) \<subseteq> set (nodes G)" using U1 sub by auto
      have 3: "distinct (remove1 current ?U)" using dist by simp
      have 4: "end_id \<in> set (remove1 current ?U)" using U1 e False by auto
      have 5: "settled_relaxed G ?st2"
        unfolding settled_relaxed_def
      proof (clarify)
        fix u x w
        assume mem: "(u, x, w) \<in> set (edges G)" and nu: "u \<notin> set (unvisited ?st2)"
        show "\<exists>a b. distances ?st2 u = Some (Finite a) \<and> distances ?st2 x = Some (Finite b)
           \<and> b \<le> a + w"
        proof (cases "u = current")
          case True
          with mem have "(x, w) \<in> set (?gr current)" by (simp add: build_graph_set)
          from R3 [OF this] R4 True show ?thesis by simp
        next
          case uc: False
          with nu U1 have nu': "u \<notin> set ?U" by simp
          from v mem have "u \<in> set (nodes G)" by (auto simp: valid_graph_def)
          from settled [OF this nu'] obtain au where au: "?d u = Some (Finite au)"
            "d' u = Some (Finite au)" by blast
          from rel mem nu' au(1) obtain b0 where b0: "?d x = Some (Finite b0)" "b0 \<le> au + w"
            unfolding settled_relaxed_def by fastforce
          from R1 [OF b0(1)] obtain b' where "d' x = Some (Finite b')" "b' \<le> b0" by blast
          with au(2) b0(2) show ?thesis by simp
        qed
      qed
      have 6: "settled_below G ?st2"
        unfolding settled_below_def
      proof
        fix u
        assume "u \<in> set (nodes G) - set (unvisited ?st2)"
        with U1 have un: "u \<in> set (nodes G)" and uc: "u = current \<or> u \<notin> set ?U" by auto
        have "\<exists>au. d' u = Some (Finite au) \<and> au \<le> a
            \<and> (\<forall>x \<in> set ?U. \<forall>b. ?d x = Some (Finite b) \<longrightarrow> au \<le> b)"
        proof (cases "u = current")
          case True
          with R4 least_a show ?thesis by auto
        next
          case False
          with uc have "u \<notin> set ?U" by simp
          from settled [OF un this] show ?thesis by blast
        qed
        then obtain au where au: "d' u = Some (Finite au)" "au \<le> a"
          "\<forall>x \<in> set ?U. \<forall>b. ?d x = Some (Finite b) \<longrightarrow> au \<le> b" by blast
        have "au \<le> b'" if "x \<in> set (remove1 current ?U)" "d' x = Some (Finite b')" for x b'
        proof -
          from that(1) U1 have xu: "x \<in> set ?U" by simp
          from R2 [OF that(2)] show ?thesis
          proof
            assume "?d x = Some (Finite b')"
            with au(3) xu show ?thesis by blast
          next
            assume "a \<le> b'"
            with au(2) show ?thesis by simp
          qed
        qed
        with au(1) show "\<exists>a. distances ?st2 u = Some (Finite a)
           \<and> (\<forall>x \<in> set (unvisited ?st2). \<forall>b. distances ?st2 x = Some (Finite b) \<longrightarrow> a \<le> b)"
          by auto
      qed
      from 1 2 3 4 5 6 have "dj_inv G start end_id ?st2" by (simp add: dj_inv_def)
      with b show ?thesis by (intro exI [where x = True] exI [where x = ?st2]) simp
    qed
  qed
qed

lemma dj_inv_init:
  assumes "start \<in> set (nodes G)" and "end_id \<in> set (nodes G)" and "iteration_order G order"
    and "valid_graph G"
  shows "dj_inv G start end_id (dijkstra_init G order start)"
proof -
  let ?st = "dijkstra_init G order start"
  from assms(3) have o: "distinct order" "set order = set (nodes G)"
    by (simp_all add: iteration_order_def)
  have u: "unvisited ?st = order" by (simp add: dijkstra_init_def)
  have 1: "chain_inv G start (distances ?st, previous ?st)"
    using chain_inv_init [OF assms(1)] by (simp add: dijkstra_init_def)
  have 5: "settled_relaxed G ?st"
    unfolding settled_relaxed_def u using o(2) assms(4) by (auto simp: valid_graph_def)
  have 6: "settled_below G ?st"
    unfolding settled_below_def u using o(2) by simp
  from 1 5 6 o assms(2) u show ?thesis by (simp add: dj_inv_def)
qed

text \<open>With no negative weight, the loop ends in a state where the distance of the end
  node is the least weight of a walk from the start, and the predecessor links are free
  of cycles.\<close>

lemma dijkstra_loop_correct:
  assumes "valid_graph G" and "nonneg G" and "start \<in> set (nodes G)"
    and "end_id \<in> set (nodes G)" and "iteration_order G order"
  shows "\<exists>stf. dijkstra_loop (build_graph (edges G)) start end_id (dijkstra_init G order start)
            = Inr stf \<and> dj_final G start end_id stf"
proof (rule dijkstra_loop_rule [where I = "dj_inv G start end_id"])
  show "dj_inv G start end_id (dijkstra_init G order start)"
    using assms(3,4,5,1) by (rule dj_inv_init)
  show "\<forall>st. dj_inv G start end_id st \<and> unvisited st \<noteq> [] \<longrightarrow>
      (\<exists>c st'. dijkstra_body (build_graph (edges G)) start end_id st = Inr (c, st')
         \<and> (if c then dj_inv G start end_id st' else dj_final G start end_id st'))"
    using dj_inv_body [OF assms(1,2)] by blast
  show "\<forall>st. dj_inv G start end_id st \<and> unvisited st = [] \<longrightarrow> dj_final G start end_id st"
    by (auto simp: dj_inv_def)
qed

section \<open>Bellman-Ford computes the distances\<close>

text \<open>The tentative distance of \<open>v\<close> is finite and at most \<open>x\<close>.\<close>

definition at_most :: "dmap \<Rightarrow> string \<Rightarrow> int \<Rightarrow> bool" where
  "at_most d v x \<longleftrightarrow> (\<exists>b. d v = Some (Finite b) \<and> b \<le> x)"

lemma bf_pass_head:
  assumes "bf_pass start ((u, v, w) # es) (d, p, vo, up) = Inr r" and "d u = Some (Finite a)"
  shows "\<exists>dv. d v = Some dv"
  using assms by (simp split: sum.splits)

text \<open>A pass that ends with the flag down has changed nothing and has found no edge to
  relax.\<close>

lemma bf_pass_flag:
  "bf_pass start es (d, p, vo, up) = Inr (d', p', vo', up') \<Longrightarrow>
   (up \<longrightarrow> up') \<and> (\<not> up' \<longrightarrow> d' = d \<and> p' = p \<and> vo' = vo \<and> (\<forall>e \<in> set es. \<not> relaxable d e))"
proof (induction es arbitrary: d p vo up)
  case Nil
  then show ?case by simp
next
  case (Cons e es)
  obtain u v w where e: "e = (u, v, w)" by (cases e)
  from Cons.prems [unfolded e] show ?case
  proof (cases rule: bf_pass_Cons_cases)
    case skip
    from skip(2) have "\<not> relaxable d e" by (simp add: relaxable_def e)
    with Cons.IH [OF skip(1)] show ?thesis by simp
  next
    case (relax a dv)
    from Cons.IH [OF relax(4)] show ?thesis by simp
  qed
qed

text \<open>After a pass, the head of every edge is at most the weight of the edge away from
  any bound that held for its tail before the pass; and no distance has grown.\<close>

lemma bf_pass_bound:
  assumes "bf_pass start es (d, p, vo, up) = Inr (d', p', vo', up')"
    and "\<forall>x a. at_most d0 x a \<longrightarrow> at_most d x a"
  shows "(\<forall>x a. at_most d x a \<longrightarrow> at_most d' x a)
     \<and> (\<forall>(u, v, w) \<in> set es. \<forall>a. at_most d0 u a \<longrightarrow> at_most d' v (a + w))"
  using assms
proof (induction es arbitrary: d p vo up)
  case Nil
  then show ?case by simp
next
  case (Cons e es)
  obtain u v w where e: "e = (u, v, w)" by (cases e)
  note below = Cons.prems(2)
  from Cons.prems(1) [unfolded e] show ?case
  proof (cases rule: bf_pass_Cons_cases)
    case skip
    note IH = Cons.IH [OF skip(1) below]
    have "at_most d' v (a + w)" if "at_most d0 u a" for a
    proof -
      from that below obtain b where b: "d u = Some (Finite b)" "b \<le> a"
        by (auto simp: at_most_def)
      from bf_pass_head [OF Cons.prems(1) [unfolded e] b(1)] obtain dv where dv: "d v = Some dv" ..
      with skip(2) b(1) have "\<not> dist_less (Finite (b + w)) dv" by blast
      with dv b(2) have "at_most d v (a + w)"
        by (cases dv) (auto simp: at_most_def)
      with IH show ?thesis by blast
    qed
    with IH show ?thesis unfolding e by simp
  next
    case (relax b dv)
    let ?d = "d(v \<mapsto> Finite (b + w))"
    have step: "at_most ?d x a" if "at_most d x a" for x a
      using that relax(2,3) by (cases "x = v") (auto simp: at_most_def dist_less_Finite)
    with below have "\<forall>x a. at_most d0 x a \<longrightarrow> at_most ?d x a" by blast
    note IH = Cons.IH [OF relax(4) this]
    have mono: "\<forall>x a. at_most d x a \<longrightarrow> at_most d' x a" using step IH by blast
    have "at_most d' v (a + w)" if "at_most d0 u a" for a
    proof -
      from that below have "at_most d u a" by blast
      with relax(1) have "b \<le> a" by (simp add: at_most_def)
      then have "at_most ?d v (a + w)" by (simp add: at_most_def)
      with IH show ?thesis by blast
    qed
    with IH mono show ?thesis unfolding e by simp
  qed
qed

text \<open>After \<open>k\<close> full passes every walk of at most \<open>k\<close> edges is accounted for.\<close>

definition bounded :: "graph \<Rightarrow> string \<Rightarrow> nat \<Rightarrow> dmap \<Rightarrow> bool" where
  "bounded G start k d \<longleftrightarrow>
     (\<forall>v p. is_walk (edges G) start p v \<and> length p \<le> k \<longrightarrow> at_most d v (weight p))"

definition settled_all :: "graph \<Rightarrow> string \<Rightarrow> dmap \<Rightarrow> bool" where
  "settled_all G start d \<longleftrightarrow> (\<forall>v p. is_walk (edges G) start p v \<longrightarrow> at_most d v (weight p))"

lemma bounded_pass:
  assumes "bf_pass start (edges G) (d, p, vo, up) = Inr (d', p', vo', up')"
    and "bounded G start k d" and "at_most d start 0"
  shows "bounded G start (Suc k) d' \<and> at_most d' start 0"
proof -
  from bf_pass_bound [OF assms(1), of d]
  have mono: "\<And>x a. at_most d x a \<Longrightarrow> at_most d' x a"
    and edge: "\<And>u v w a. (u, v, w) \<in> set (edges G) \<Longrightarrow> at_most d u a \<Longrightarrow> at_most d' v (a + w)"
    by blast+
  have "at_most d' v (weight q)" if "is_walk (edges G) start q v" "length q \<le> Suc k" for v q
  proof (cases q rule: rev_cases)
    case Nil
    with that(1) assms(3) mono show ?thesis by simp
  next
    case (snoc q' e)
    obtain u x w where e: "e = (u, x, w)" by (cases e)
    with that(1) snoc have "is_walk (edges G) start q' u \<and> (u, x, w) \<in> set (edges G) \<and> x = v"
      by (auto simp: is_walk_snoc)
    moreover from that(2) snoc have "length q' \<le> k" by simp
    ultimately have "at_most d u (weight q')" and "(u, v, w) \<in> set (edges G)"
      using assms(2) unfolding bounded_def by blast+
    from edge [OF this(2,1)] snoc e show ?thesis by simp
  qed
  with mono [OF assms(3)] show ?thesis unfolding bounded_def by blast
qed

lemma bounded_passes:
  "bf_passes n start (edges G) (d, p, vo) = Inr (d', p', vo') \<Longrightarrow>
   bounded G start k d \<Longrightarrow> at_most d start 0 \<Longrightarrow>
   (bounded G start (k + n) d' \<or> (\<forall>e \<in> set (edges G). \<not> relaxable d' e)) \<and> at_most d' start 0"
proof (induction n arbitrary: d p vo k)
  case 0
  then show ?case by simp
next
  case (Suc n)
  from Suc.prems(1) obtain d1 p1 vo1 up1 where
    ps: "bf_pass start (edges G) (d, p, vo, False) = Inr (d1, p1, vo1, up1)"
    by (auto split: sum.splits)
  from bounded_pass [OF ps Suc.prems(2,3)]
  have b1: "bounded G start (Suc k) d1" and s1: "at_most d1 start 0" by simp_all
  show ?case
  proof (cases up1)
    case True
    with Suc.prems(1) ps have "bf_passes n start (edges G) (d1, p1, vo1) = Inr (d', p', vo')"
      by simp
    from Suc.IH [OF this b1 s1] show ?thesis by simp
  next
    case False
    with Suc.prems(1) ps have d': "d' = d1" by simp
    from bf_pass_flag [OF ps] False have "d1 = d" "\<forall>e \<in> set (edges G). \<not> relaxable d e"
      by simp_all
    with d' s1 show ?thesis by simp
  qed
qed

lemma bounded_init:
  "at_most d start 0 \<Longrightarrow> bounded G start 0 d"
  by (auto simp: bounded_def)

text \<open>A state in which no edge can be relaxed accounts for every walk.\<close>

lemma fixpoint_settled_all:
  assumes v: "valid_graph G" and dom: "set (nodes G) \<subseteq> dom d"
    and nr: "\<forall>e \<in> set (edges G). \<not> relaxable d e" and s: "at_most d start 0"
  shows "settled_all G start d"
  unfolding settled_all_def
proof (intro allI impI)
  fix x p
  assume "is_walk (edges G) start p x"
  then show "at_most d x (weight p)"
  proof (induction p arbitrary: x rule: rev_induct)
    case Nil
    with s show ?case by simp
  next
    case (snoc e p)
    obtain u y w where e: "e = (u, y, w)" by (cases e)
    with snoc.prems have "is_walk (edges G) start p u \<and> (u, y, w) \<in> set (edges G) \<and> y = x"
      by (auto simp: is_walk_snoc)
    then have wu: "is_walk (edges G) start p u" and mem: "(u, x, w) \<in> set (edges G)" by blast+
    from snoc.IH [OF wu] obtain b where b: "d u = Some (Finite b)" "b \<le> weight p"
      by (auto simp: at_most_def)
    from v mem dom obtain dv where dv: "d x = Some dv" by (auto simp: valid_graph_def)
    from nr mem have "\<not> relaxable d (u, x, w)" by blast
    with b(1) dv have "\<not> dist_less (Finite (b + w)) dv" by (auto simp: relaxable_def)
    with dv b(2) e mem show ?case
      by (cases dv) (auto simp: at_most_def)
  qed
qed

text \<open>The nodes a walk visits, in order.\<close>

definition verts :: "string \<Rightarrow> edge list \<Rightarrow> string list" where
  "verts u es = u # map (\<lambda>(a, b, w). b) es"

lemma verts_Nil [simp]: "verts u [] = [u]"
  by (simp add: verts_def)

lemma verts_Cons [simp]: "verts u ((a, b, w) # es) = u # verts b es"
  by (simp add: verts_def)

lemma length_verts [simp]: "length (verts u es) = Suc (length es)"
  by (simp add: verts_def)

lemma walk_verts_subset:
  "valid_graph G \<Longrightarrow> u \<in> set (nodes G) \<Longrightarrow> is_walk (edges G) u es v \<Longrightarrow>
   set (verts u es) \<subseteq> set (nodes G)"
proof (induction es arbitrary: u)
  case Nil
  then show ?case by simp
next
  case (Cons e es)
  obtain a b w where e: "e = (a, b, w)" by (cases e)
  with Cons.prems have mem: "(u, b, w) \<in> set (edges G)" and a: "a = u"
    and rest: "is_walk (edges G) b es v" by auto
  from Cons.prems(1) mem have "b \<in> set (nodes G)" by (auto simp: valid_graph_def)
  from Cons.IH [OF Cons.prems(1) this rest] Cons.prems(2) e show ?case by simp
qed

lemma walk_split_at:
  "is_walk E u es v \<Longrightarrow> x \<in> set (verts u es) \<Longrightarrow>
   \<exists>p1 p2. es = p1 @ p2 \<and> is_walk E u p1 x \<and> is_walk E x p2 v"
proof (induction es arbitrary: u)
  case Nil
  then have "[] = [] @ [] \<and> is_walk E u [] x \<and> is_walk E x [] v" by simp
  then show ?case by (intro exI)
next
  case (Cons e es)
  obtain a b w where e: "e = (a, b, w)" by (cases e)
  with Cons.prems(1) have mem: "(u, b, w) \<in> set E" and a: "a = u"
    and rest: "is_walk E b es v" by auto
  show ?case
  proof (cases "x = u")
    case True
    with Cons.prems(1) have "e # es = [] @ (e # es) \<and> is_walk E u [] x \<and> is_walk E x (e # es) v"
      by simp
    then show ?thesis by (intro exI)
  next
    case False
    with Cons.prems(2) e have "x \<in> set (verts b es)" by simp
    from Cons.IH [OF rest this] obtain p1 p2 where
      h: "es = p1 @ p2" "is_walk E b p1 x" "is_walk E x p2 v" by blast
    with mem a e have "e # es = (e # p1) @ p2 \<and> is_walk E u (e # p1) x \<and> is_walk E x p2 v"
      by simp
    then show ?thesis by (intro exI)
  qed
qed

text \<open>A walk that visits a node twice contains a closed walk.\<close>

lemma walk_cycle:
  "is_walk E u es v \<Longrightarrow> \<not> distinct (verts u es) \<Longrightarrow>
   \<exists>p1 c p2 x. es = p1 @ c @ p2 \<and> c \<noteq> [] \<and> is_walk E u p1 x \<and> is_walk E x c x
      \<and> is_walk E x p2 v"
proof (induction es arbitrary: u)
  case Nil
  then show ?case by simp
next
  case (Cons e es)
  obtain a b w where e: "e = (a, b, w)" by (cases e)
  with Cons.prems(1) have mem: "(u, b, w) \<in> set E" and a: "a = u"
    and rest: "is_walk E b es v" by auto
  show ?case
  proof (cases "u \<in> set (verts b es)")
    case True
    from walk_split_at [OF rest True] obtain q1 q2 where
      h: "es = q1 @ q2" "is_walk E b q1 u" "is_walk E u q2 v" by blast
    with mem a e have "e # es = [] @ (e # q1) @ q2 \<and> e # q1 \<noteq> [] \<and> is_walk E u [] u
       \<and> is_walk E u (e # q1) u \<and> is_walk E u q2 v" by simp
    then show ?thesis by (intro exI)
  next
    case False
    with Cons.prems(2) e have "\<not> distinct (verts b es)" by simp
    from Cons.IH [OF rest this] obtain p1 c p2 x where
      h: "es = p1 @ c @ p2" "c \<noteq> []" "is_walk E b p1 x" "is_walk E x c x" "is_walk E x p2 v"
      by blast
    with mem a e have "e # es = (e # p1) @ c @ p2 \<and> c \<noteq> [] \<and> is_walk E u (e # p1) x
       \<and> is_walk E x c x \<and> is_walk E x p2 v" by simp
    then show ?thesis by (intro exI)
  qed
qed

text \<open>Without a negative cycle in reach, a walk can be cut down to fewer edges than
  there are nodes without gaining weight.\<close>

lemma walk_shorten:
  assumes v: "valid_graph G" and s: "start \<in> set (nodes G)" and nc: "no_negative_cycle G start"
  shows "is_walk (edges G) start p x \<Longrightarrow>
    \<exists>q. is_walk (edges G) start q x \<and> length q < length (nodes G) \<and> weight q \<le> weight p"
proof (induction "length p" arbitrary: p rule: less_induct)
  case less
  show ?case
  proof (cases "length p < length (nodes G)")
    case True
    with less.prems show ?thesis by auto
  next
    case False
    from walk_verts_subset [OF v s less.prems] have "card (set (verts start p)) \<le> card (set (nodes G))"
      by (simp add: card_mono)
    also from v have "\<dots> = length (nodes G)" by (simp add: valid_graph_def distinct_card)
    finally have "card (set (verts start p)) < length (verts start p)" using False by simp
    then have "\<not> distinct (verts start p)" by (auto dest: distinct_card)
    from walk_cycle [OF less.prems this] obtain p1 c p2 y where
      h: "p = p1 @ c @ p2" "c \<noteq> []" "is_walk (edges G) start p1 y" "is_walk (edges G) y c y"
        "is_walk (edges G) y p2 x" by blast
    from nc h(3,4) have "0 \<le> weight c" unfolding no_negative_cycle_def by blast
    with h(1) have w: "weight (p1 @ p2) \<le> weight p" by simp
    from h(3,5) have walk: "is_walk (edges G) start (p1 @ p2) x" by (auto simp: is_walk_append)
    from h(1,2) have "length (p1 @ p2) < length p" by simp
    from less.hyps [OF this walk] obtain q where "is_walk (edges G) start q x"
      "length q < length (nodes G)" "weight q \<le> weight (p1 @ p2)" by blast
    with w show ?thesis by (meson order_trans)
  qed
qed

lemma bounded_settled_all:
  assumes "valid_graph G" and "start \<in> set (nodes G)" and "no_negative_cycle G start"
    and b: "bounded G start (length (nodes G) - 1) d"
  shows "settled_all G start d"
  unfolding settled_all_def
proof (intro allI impI)
  fix x p
  assume "is_walk (edges G) start p x"
  from walk_shorten [OF assms(1,2,3) this] obtain q where q: "is_walk (edges G) start q x"
    "length q < length (nodes G)" "weight q \<le> weight p" by blast
  then have "length q \<le> length (nodes G) - 1" by simp
  with b q(1) have "at_most d x (weight q)" unfolding bounded_def by blast
  with q(3) show "at_most d x (weight p)" by (auto simp: at_most_def)
qed

text \<open>A state that accounts for every walk holds the distances, and none of its edges
  can be relaxed.\<close>

lemma settled_all_shortest:
  assumes inv: "sp_inv G start (d, p)" and all: "settled_all G start d"
    and x: "x \<in> set (nodes G)"
  shows "\<exists>dx. d x = Some dx \<and> shortest G start x dx"
proof -
  from inv have "dom d = set (nodes G)" by (simp add: sp_inv_def)
  with x have "x \<in> dom d" by simp
  then obtain dx where dx: "d x = Some dx" by blast
  have "shortest G start x dx"
  proof (cases dx)
    case Infinity
    have "\<not> is_walk (edges G) start q x" for q
    proof
      assume "is_walk (edges G) start q x"
      with all have "at_most d x (weight q)" unfolding settled_all_def by blast
      with dx Infinity show False by (simp add: at_most_def)
    qed
    with Infinity show ?thesis by (simp add: shortest_def)
  next
    case (Finite a)
    with inv dx have "\<exists>q. is_walk (edges G) start q x \<and> weight q = a"
      unfolding sp_inv_def fst_conv by blast
    moreover have "a \<le> weight q" if "is_walk (edges G) start q x" for q
    proof -
      from all that have "at_most d x (weight q)" unfolding settled_all_def by blast
      with dx Finite show ?thesis by (simp add: at_most_def)
    qed
    ultimately show ?thesis using Finite by (simp add: shortest_def)
  qed
  with dx show ?thesis by blast
qed

lemma settled_all_fixpoint:
  assumes inv: "sp_inv G start (d, p)" and all: "settled_all G start d"
  shows "\<forall>e \<in> set (edges G). \<not> relaxable d e"
proof
  fix e
  assume mem: "e \<in> set (edges G)"
  obtain u v w where e: "e = (u, v, w)" by (cases e)
  show "\<not> relaxable d e"
  proof
    assume "relaxable d e"
    with e obtain a dv where a: "d u = Some (Finite a)" and dv: "d v = Some dv"
      and less: "dist_less (Finite (a + w)) dv" by (auto simp: relaxable_def)
    from inv a obtain q where q: "is_walk (edges G) start q u" "weight q = a"
      unfolding sp_inv_def fst_conv by blast
    with mem e have "is_walk (edges G) start (q @ [(u, v, w)]) v" by (simp add: is_walk_snoc)
    with all have "at_most d v (weight (q @ [(u, v, w)]))" unfolding settled_all_def by blast
    with q(2) dv less show False by (auto simp: at_most_def)
  qed
qed

text \<open>Bellman-Ford on a valid graph with no negative cycle in reach of the start: the
  passes end in a state that holds the distance of every node, and the scan for
  negative cycles finds nothing.\<close>

lemma bf_passes_correct:
  assumes v: "valid_graph G" and s: "start \<in> set (nodes G)" and nc: "no_negative_cycle G start"
  shows "\<exists>d p vo. bf_passes (length (nodes G) - 1) start (edges G) (bf_init G start) = Inr (d, p, vo)
       \<and> relaxes (edges G) (fst (bf_init G start), fst (snd (bf_init G start))) (d, p)
       \<and> sp_inv G start (d, p) \<and> settled_all G start d \<and> bf_check (edges G) d = Inr False"
proof -
  let ?n = "length (nodes G) - 1"
  obtain d0 p0 vo0 where i: "bf_init G start = (d0, p0, vo0)" by (cases "bf_init G start")
  from bf_passes_valid [OF v, of ?n start] i obtain d p vo where
    ps: "bf_passes ?n start (edges G) (d0, p0, vo0) = Inr (d, p, vo)"
    and rs: "relaxes (edges G) (d0, p0) (d, p)" and dom: "set (nodes G) \<subseteq> dom d" by auto
  from bf_init_sp_inv [OF s] i have "sp_inv G start (d0, p0)" by simp
  from sp_inv_relaxes [OF rs this] have inv: "sp_inv G start (d, p)" .
  from i have s0: "at_most d0 start 0" by (auto simp: bf_init_def at_most_def)
  from bounded_passes [OF ps bounded_init [OF s0] s0]
  have alt: "bounded G start ?n d \<or> (\<forall>e \<in> set (edges G). \<not> relaxable d e)"
    and sd: "at_most d start 0" by simp_all
  from alt have all: "settled_all G start d"
  proof
    assume "bounded G start ?n d"
    with v s nc show ?thesis by (rule bounded_settled_all)
  next
    assume "\<forall>e \<in> set (edges G). \<not> relaxable d e"
    with v dom show ?thesis using sd by (rule fixpoint_settled_all)
  qed
  from settled_all_fixpoint [OF inv all] bf_check_iff [OF valid_graph_dom [OF v dom]]
  have "bf_check (edges G) d = Inr False" by simp
  with ps rs inv all i show ?thesis by auto
qed

section \<open>The results of the two algorithms\<close>

lemma finish_chain_path:
  assumes "chain_inv G start (d, p)" and "end_id \<in> set (nodes G)"
  shows "\<exists>de path. d end_id = Some de \<and> path \<noteq> []
      \<and> finish end_id d p vo name
          = Some (Inr (PathResult de (if de \<noteq> Infinity then path else []) vo name))"
proof -
  from assms have "chain p end_id" by (simp add: chain_inv_def)
  from reconstruct_chain [OF this, of "[]"] obtain path where
    rc: "reconstruct p (Some end_id) [] = Some (Inr path)" by blast
  from reconstruct_sound [OF rc] have ne: "path \<noteq> []" by (auto simp: walked_back_def)
  from assms have "end_id \<in> dom d" by (simp add: chain_inv_def sp_inv_def)
  then obtain de where de: "d end_id = Some de" by auto
  with rc have "finish end_id d p vo name
          = Some (Inr (PathResult de (if de \<noteq> Infinity then path else []) vo name))"
    by (simp add: finish_def del: reconstruct_Some)
  with de ne show ?thesis by blast
qed

text \<open>Dijkstra with no negative weight: a result is returned, and its distance is the
  distance of the end node.\<close>

lemma dijkstra_result:
  assumes "valid_graph G" and "nonneg G" and "start \<in> set (nodes G)"
    and "end_id \<in> set (nodes G)" and "iteration_order G order"
  shows "\<exists>stf de path.
      dijkstra_loop (build_graph (edges G)) start end_id (dijkstra_init G order start) = Inr stf
      \<and> distances stf end_id = Some de \<and> shortest G start end_id de \<and> path \<noteq> []
      \<and> dijkstra G order start end_id
          = Some (Inr (PathResult de (if de \<noteq> Infinity then path else []) (visit_order stf)
               ''Dijkstra''))"
proof -
  from dijkstra_loop_correct [OF assms] obtain stf where
    l: "dijkstra_loop (build_graph (edges G)) start end_id (dijkstra_init G order start) = Inr stf"
    and f: "dj_final G start end_id stf" by blast
  from f have ci: "chain_inv G start (distances stf, previous stf)"
    and sh: "\<exists>de. distances stf end_id = Some de \<and> shortest G start end_id de"
    by (simp_all add: dj_final_def)
  from finish_chain_path [OF ci assms(4), of "visit_order stf" "''Dijkstra''"]
  obtain de path where de: "distances stf end_id = Some de" and ne: "path \<noteq> []"
    and fin: "finish end_id (distances stf) (previous stf) (visit_order stf) ''Dijkstra''
      = Some (Inr (PathResult de (if de \<noteq> Infinity then path else []) (visit_order stf)
           ''Dijkstra''))" by blast
  from sh de have "shortest G start end_id de" by simp
  moreover from l fin have "dijkstra G order start end_id
      = Some (Inr (PathResult de (if de \<noteq> Infinity then path else []) (visit_order stf)
           ''Dijkstra''))" by (simp add: dijkstra_def)
  ultimately show ?thesis using l de ne by blast
qed

text \<open>Bellman-Ford with no negative weight: likewise.\<close>

lemma bellman_ford_result:
  assumes "valid_graph G" and "nonneg G" and "start \<in> set (nodes G)"
    and "end_id \<in> set (nodes G)"
  shows "\<exists>de path vo. shortest G start end_id de \<and> path \<noteq> []
      \<and> bellman_ford G start end_id
          = Some (Inr (PathResult de (if de \<noteq> Infinity then path else []) vo ''Bellman-Ford''))"
proof -
  from bf_passes_correct [OF assms(1,3) nonneg_no_negative_cycle [OF assms(2)]]
  obtain d p vo where
    ps: "bf_passes (length (nodes G) - 1) start (edges G) (bf_init G start) = Inr (d, p, vo)"
    and rs: "relaxes (edges G) (fst (bf_init G start), fst (snd (bf_init G start))) (d, p)"
    and inv: "sp_inv G start (d, p)" and all: "settled_all G start d"
    and chk: "bf_check (edges G) d = Inr False" by blast
  have "chain_inv G start (fst (bf_init G start), fst (snd (bf_init G start)))"
    using chain_inv_init [OF assms(3)] by (simp add: bf_init_def)
  with assms(2) rs have ci: "chain_inv G start (d, p)" by (rule chain_inv_relaxes)
  from finish_chain_path [OF ci assms(4), of vo "''Bellman-Ford''"]
  obtain de path where de: "d end_id = Some de" and ne: "path \<noteq> []"
    and fin: "finish end_id d p vo ''Bellman-Ford''
      = Some (Inr (PathResult de (if de \<noteq> Infinity then path else []) vo ''Bellman-Ford''))"
    by blast
  from settled_all_shortest [OF inv all assms(4)] de have "shortest G start end_id de" by simp
  moreover from ps chk fin have "bellman_ford G start end_id
      = Some (Inr (PathResult de (if de \<noteq> Infinity then path else []) vo ''Bellman-Ford''))"
    by (simp add: bellman_ford_def)
  ultimately show ?thesis using ne by blast
qed

section \<open>The two algorithms side by side\<close>

lemma default_nonneg: "nonneg default_graph"
  by (simp add: nonneg_def default_graph_def)

text \<open>Claim C1, as the code has it. On a valid graph with no negative weight, and
  with both endpoints in the graph, \<open>dijkstra\<close> and \<open>bellman_ford\<close> each return a result,
  both with the same distance: the least weight of a walk from the start node to the
  end node, or infinity when there is none. Each path is empty exactly when that
  distance is infinite. (That the two paths are the same is not part of it.)\<close>

theorem dijkstra_bellman_ford_same_distance:
  assumes "valid_graph G" and "nonneg G" and "start \<in> set (nodes G)"
    and "end_id \<in> set (nodes G)" and "iteration_order G order"
  shows "\<exists>dd pd vd pb vb.
      dijkstra G order start end_id = Some (Inr (PathResult dd pd vd ''Dijkstra''))
      \<and> bellman_ford G start end_id = Some (Inr (PathResult dd pb vb ''Bellman-Ford''))
      \<and> shortest G start end_id dd
      \<and> (pd = [] \<longleftrightarrow> dd = Infinity) \<and> (pb = [] \<longleftrightarrow> dd = Infinity)"
proof -
  from dijkstra_result [OF assms] obtain stf de path where
    "dijkstra_loop (build_graph (edges G)) start end_id (dijkstra_init G order start) = Inr stf"
    and "distances stf end_id = Some de"
    and sd: "shortest G start end_id de" and nd: "path \<noteq> []"
    and rd: "dijkstra G order start end_id
          = Some (Inr (PathResult de (if de \<noteq> Infinity then path else []) (visit_order stf)
               ''Dijkstra''))" by (elim exE conjE) (rule that)
  from bellman_ford_result [OF assms(1,2,3,4)] obtain de' path' vo where
    sb: "shortest G start end_id de'" and nb: "path' \<noteq> []"
    and rb: "bellman_ford G start end_id
          = Some (Inr (PathResult de' (if de' \<noteq> Infinity then path' else []) vo ''Bellman-Ford''))"
    by (elim exE conjE) (rule that)
  from shortest_unique [OF sb sd] have eq: "de' = de" .
  let ?pd = "if de \<noteq> Infinity then path else []"
  let ?pb = "if de \<noteq> Infinity then path' else []"
  have "dijkstra G order start end_id = Some (Inr (PathResult de ?pd (visit_order stf) ''Dijkstra''))
      \<and> bellman_ford G start end_id = Some (Inr (PathResult de ?pb vo ''Bellman-Ford''))
      \<and> shortest G start end_id de
      \<and> (?pd = [] \<longleftrightarrow> de = Infinity) \<and> (?pb = [] \<longleftrightarrow> de = Infinity)"
    using rd rb eq sd nd nb by simp
  then show ?thesis by (intro exI)
qed

lemma default_bellman_ford_A_C:
  "bellman_ford default_graph ''A'' ''C''
     = Some (Inr (PathResult (Finite 7) [''A'', ''B'', ''C''] [''B'', ''E'', ''C'', ''D'']
          ''Bellman-Ford''))"
  by code_simp

theorem dijkstra_bellman_ford_same_distance_witness:
  "valid_graph default_graph \<and> nonneg default_graph \<and> ''A'' \<in> set (nodes default_graph)
   \<and> ''C'' \<in> set (nodes default_graph)
   \<and> iteration_order default_graph [''A'', ''B'', ''C'', ''D'', ''E'']
   \<and> dijkstra default_graph [''A'', ''B'', ''C'', ''D'', ''E''] ''A'' ''C''
       = Some (Inr (PathResult (Finite 7) [''A'', ''B'', ''C''] [''E'', ''B'', ''D'', ''C'']
            ''Dijkstra''))
   \<and> bellman_ford default_graph ''A'' ''C''
       = Some (Inr (PathResult (Finite 7) [''A'', ''B'', ''C''] [''B'', ''E'', ''C'', ''D'']
            ''Bellman-Ford''))
   \<and> shortest default_graph ''A'' ''C'' (Finite 7)"
proof -
  have a: "''A'' \<in> set (nodes default_graph)" and c: "''C'' \<in> set (nodes default_graph)"
    by (simp_all add: default_nodes)
  from dijkstra_bellman_ford_same_distance [OF default_valid default_nonneg a c default_order]
  obtain dd pd vd pb vb where
    dj: "dijkstra default_graph [''A'', ''B'', ''C'', ''D'', ''E''] ''A'' ''C''
        = Some (Inr (PathResult dd pd vd ''Dijkstra''))"
    and "bellman_ford default_graph ''A'' ''C'' = Some (Inr (PathResult dd pb vb ''Bellman-Ford''))"
    and sh: "shortest default_graph ''A'' ''C'' dd"
    and "pd = [] \<longleftrightarrow> dd = Infinity" and "pb = [] \<longleftrightarrow> dd = Infinity"
    by (elim exE conjE) (rule that)
  from dj have "dd = Finite 7" unfolding default_dijkstra_A_C by simp
  with sh have 1: "shortest default_graph ''A'' ''C'' (Finite 7)" by simp
  from default_valid default_nonneg a c default_order default_dijkstra_A_C
    default_bellman_ford_A_C 1
  show ?thesis by (intro conjI)
qed

text \<open>The claim as stated fails where two shortest paths tie: the distances agree, the
  paths do not.\<close>

theorem different_paths_counterexample:
  "valid_graph tie_graph \<and> nonneg tie_graph
   \<and> iteration_order tie_graph [''A'', ''B'', ''C'', ''D'']
   \<and> dijkstra tie_graph [''A'', ''B'', ''C'', ''D''] ''A'' ''D''
       = Some (Inr (PathResult (Finite 3) [''A'', ''B'', ''D''] [''B'', ''C'', ''D''] ''Dijkstra''))
   \<and> bellman_ford tie_graph ''A'' ''D''
       = Some (Inr (PathResult (Finite 3) [''A'', ''C'', ''D''] [''C'', ''D'', ''B''] ''Bellman-Ford''))
   \<and> [''A'', ''B'', ''D''] \<noteq> [''A'', ''C'', ''D'']"
proof -
  have 1: "valid_graph tie_graph" by (simp add: valid_graph_def tie_graph_def)
  have 2: "nonneg tie_graph" by (simp add: nonneg_def tie_graph_def)
  have 3: "iteration_order tie_graph [''A'', ''B'', ''C'', ''D'']"
    by (simp add: iteration_order_def tie_graph_def)
  have 4: "dijkstra tie_graph [''A'', ''B'', ''C'', ''D''] ''A'' ''D''
       = Some (Inr (PathResult (Finite 3) [''A'', ''B'', ''D''] [''B'', ''C'', ''D''] ''Dijkstra''))"
    by code_simp
  have 5: "bellman_ford tie_graph ''A'' ''D''
       = Some (Inr (PathResult (Finite 3) [''A'', ''C'', ''D''] [''C'', ''D'', ''B''] ''Bellman-Ford''))"
    by code_simp
  have 6: "[''A'', ''B'', ''D''] \<noteq> [''A'', ''C'', ''D'']" by simp
  from 1 2 3 4 5 6 show ?thesis by (intro conjI)
qed

section \<open>Start and end at the same node\<close>

text \<open>With no negative cycle in reach, no relaxation touches the start node.\<close>

definition root_inv :: "graph \<Rightarrow> string \<Rightarrow> dmap \<times> pmap \<Rightarrow> bool" where
  "root_inv G start s \<longleftrightarrow>
     sp_inv G start s \<and> fst s start = Some (Finite 0) \<and> snd s start = Some None"

lemma root_inv_relax_edge:
  assumes nc: "no_negative_cycle G start" and e: "e \<in> set (edges G)"
    and inv: "root_inv G start s" and r: "relax_edge e s s'"
  shows "root_inv G start s'"
proof -
  obtain d p where s: "s = (d, p)" by (cases s)
  obtain u v w where euvw: "e = (u, v, w)" by (cases e)
  from r s euvw obtain a dv where du: "d u = Some (Finite a)" and dv: "d v = Some dv"
    and less: "dist_less (Finite (a + w)) dv"
    and s': "s' = (d(v \<mapsto> Finite (a + w)), p(v \<mapsto> Some u))"
    by (auto simp: relax_edge_def)
  from inv s have si: "sp_inv G start (d, p)" and d0: "d start = Some (Finite 0)"
    and p0: "p start = Some None" by (simp_all add: root_inv_def)
  have "v \<noteq> start"
  proof
    assume vs: "v = start"
    with dv d0 have "dv = Finite 0" by simp
    with less have neg: "a + w < 0" by simp
    from si du obtain q where q: "is_walk (edges G) start q u" "weight q = a"
      unfolding sp_inv_def fst_conv by blast
    with e euvw vs have "is_walk (edges G) start (q @ [(u, v, w)]) start"
      by (simp add: is_walk_snoc)
    moreover have "is_walk (edges G) start [] start" by simp
    ultimately have "0 \<le> weight (q @ [(u, v, w)])"
      using nc unfolding no_negative_cycle_def by blast
    with q(2) neg show False by simp
  qed
  with d0 p0 s' sp_inv_relax_edge [OF inv [unfolded root_inv_def, THEN conjunct1] e r]
  show ?thesis by (simp add: root_inv_def)
qed

lemma root_inv_relaxes:
  assumes "no_negative_cycle G start" and "relaxes (edges G) s s'" and "root_inv G start s"
  shows "root_inv G start s'"
  using assms(2,3)
proof (rule relaxes_invariant)
  fix e s s'
  assume "e \<in> set (edges G)" "root_inv G start s" "relax_edge e s s'"
  with assms(1) show "root_inv G start s'" by (rule root_inv_relax_edge)
qed

lemma finish_root:
  "p start = Some None \<Longrightarrow> d start = Some (Finite 0) \<Longrightarrow>
   finish start d p vo name = Some (Inr (PathResult (Finite 0) [start] vo name))"
  by (simp add: finish_def)

text \<open>Claim C10. On a valid graph, for a node \<open>s\<close> of it and any iteration order of the
  node set, \<open>dijkstra\<close> from \<open>s\<close> to \<open>s\<close> returns distance 0, the path of \<open>s\<close> alone and an
  empty visit order; and \<open>bellman_ford\<close> from \<open>s\<close> to \<open>s\<close> returns distance 0 and the path
  of \<open>s\<close> alone, provided no cycle of negative weight can be reached from \<open>s\<close>.\<close>

theorem same_start_and_end:
  assumes "valid_graph G" and "s \<in> set (nodes G)" and "iteration_order G order"
  shows "dijkstra G order s s = Some (Inr (PathResult (Finite 0) [s] [] ''Dijkstra''))
     \<and> (no_negative_cycle G s \<longrightarrow>
          (\<exists>vo. bellman_ford G s s = Some (Inr (PathResult (Finite 0) [s] vo ''Bellman-Ford''))))"
proof (rule conjI)
  let ?d = "(\<lambda>node. if node \<in> set (nodes G) then Some Infinity else None)(s \<mapsto> Finite 0)"
  let ?p = "\<lambda>node. if node \<in> set (nodes G) then Some None else None"
  from assms(3) have o: "set order = set (nodes G)" by (simp add: iteration_order_def)
  have i: "dijkstra_init G order s
     = \<lparr>distances = ?d, previous = ?p, unvisited = order, visit_order = []\<rparr>"
    by (simp add: dijkstra_init_def)
  have "dijkstra_loop (build_graph (edges G)) s s
          \<lparr>distances = ?d, previous = ?p, unvisited = order, visit_order = []\<rparr>
      = Inr \<lparr>distances = ?d, previous = ?p, unvisited = remove1 s order,
            visit_order = (if s \<noteq> s then [] @ [s] else [])\<rparr>"
  proof (rule dijkstra_loop_settle_end [where a = 0])
    show "s \<in> set order" using assms(2) o by simp
    show "?d s = Some (Finite 0)" by simp
    show "\<forall>x \<in> set order. x \<noteq> s \<longrightarrow> (\<exists>kx. ?d x = Some kx \<and> dist_less (Finite 0) kx)"
      using o by simp
  qed
  then have l: "dijkstra_loop (build_graph (edges G)) s s (dijkstra_init G order s)
      = Inr \<lparr>distances = ?d, previous = ?p, unvisited = remove1 s order, visit_order = []\<rparr>"
    by (simp only: i if_False simp_thms)
  have "dijkstra G order s s = finish s ?d ?p [] ''Dijkstra''"
    unfolding dijkstra_def l by simp
  also from assms(2) have "\<dots> = Some (Inr (PathResult (Finite 0) [s] [] ''Dijkstra''))"
    by (intro finish_root) simp_all
  finally show "dijkstra G order s s = Some (Inr (PathResult (Finite 0) [s] [] ''Dijkstra''))" .
next
  show "no_negative_cycle G s \<longrightarrow>
          (\<exists>vo. bellman_ford G s s = Some (Inr (PathResult (Finite 0) [s] vo ''Bellman-Ford'')))"
  proof
    assume nc: "no_negative_cycle G s"
    from bf_passes_correct [OF assms(1,2) nc] obtain d p vo where
      ps: "bf_passes (length (nodes G) - 1) s (edges G) (bf_init G s) = Inr (d, p, vo)"
      and rs: "relaxes (edges G) (fst (bf_init G s), fst (snd (bf_init G s))) (d, p)"
      and "sp_inv G s (d, p)" and "settled_all G s d"
      and chk: "bf_check (edges G) d = Inr False" by (elim exE conjE) (rule that)
    have "root_inv G s (fst (bf_init G s), fst (snd (bf_init G s)))"
      using bf_init_sp_inv [OF assms(2)] assms(2) by (simp add: root_inv_def bf_init_def)
    with nc rs have "root_inv G s (d, p)" by (rule root_inv_relaxes)
    then have ps0: "p s = Some None" and ds0: "d s = Some (Finite 0)"
      by (simp_all add: root_inv_def)
    have "finish s d p vo ''Bellman-Ford''
      = Some (Inr (PathResult (Finite 0) [s] vo ''Bellman-Ford''))"
      using ps0 ds0 by (simp add: finish_def)
    with ps chk have "bellman_ford G s s
      = Some (Inr (PathResult (Finite 0) [s] vo ''Bellman-Ford''))"
      by (simp add: bellman_ford_def)
    then show "\<exists>vo. bellman_ford G s s = Some (Inr (PathResult (Finite 0) [s] vo ''Bellman-Ford''))"
      by (intro exI)
  qed
qed

theorem same_start_and_end_witness:
  "valid_graph default_graph \<and> ''A'' \<in> set (nodes default_graph)
   \<and> iteration_order default_graph [''A'', ''B'', ''C'', ''D'', ''E'']
   \<and> no_negative_cycle default_graph ''A''
   \<and> dijkstra default_graph [''A'', ''B'', ''C'', ''D'', ''E''] ''A'' ''A''
       = Some (Inr (PathResult (Finite 0) [''A''] [] ''Dijkstra''))
   \<and> (\<exists>vo. bellman_ford default_graph ''A'' ''A''
       = Some (Inr (PathResult (Finite 0) [''A''] vo ''Bellman-Ford'')))"
proof -
  have a: "''A'' \<in> set (nodes default_graph)" by (simp add: default_nodes)
  have nc: "no_negative_cycle default_graph ''A''"
    using default_nonneg by (rule nonneg_no_negative_cycle)
  note t = same_start_and_end [OF default_valid a default_order]
  from t have 1: "dijkstra default_graph [''A'', ''B'', ''C'', ''D'', ''E''] ''A'' ''A''
       = Some (Inr (PathResult (Finite 0) [''A''] [] ''Dijkstra''))" by (rule conjunct1)
  from t have "no_negative_cycle default_graph ''A'' \<longrightarrow>
     (\<exists>vo. bellman_ford default_graph ''A'' ''A''
       = Some (Inr (PathResult (Finite 0) [''A''] vo ''Bellman-Ford'')))" by (rule conjunct2)
  from this nc have 2: "\<exists>vo. bellman_ford default_graph ''A'' ''A''
       = Some (Inr (PathResult (Finite 0) [''A''] vo ''Bellman-Ford''))" by (rule mp)
  from default_valid a default_order nc 1 2 show ?thesis by (intro conjI)
qed

end
